theory Spec2Isabelle
  imports Main
begin

section \<open>Strings of the application\<close>

text \<open>
  A JavaScript string is a sequence of UTF-16 code units. The patterns of the program name
  the en dash and the em dash, which are not 8-bit characters, so a string is modelled as the
  list of its code units; \<open>str\<close> turns an ASCII literal of the source into such a list.
\<close>

type_synonym jstring = "nat list"

definition str :: "string \<Rightarrow> jstring" where
  "str s = map of_char s"

text \<open>Template literals print a non-negative integer in decimal (\<open>`${index + 1}`\<close>).\<close>

fun string_of_nat :: "nat \<Rightarrow> jstring" where
  "string_of_nat n =
     (if n < 10 then [48 + n] else string_of_nat (n div 10) @ [48 + n mod 10])"

declare string_of_nat.simps [simp del]

text \<open>
  Truthiness of an optional string: \<open>undefined\<close> and the empty string are falsy.
  \<open>a || b\<close> yields \<open>a\<close> when it is truthy and \<open>b\<close> otherwise.
\<close>

fun truthy :: "jstring option \<Rightarrow> bool" where
  "truthy None = False"
| "truthy (Some s) = (s \<noteq> [])"

definition or_else :: "jstring option \<Rightarrow> jstring option \<Rightarrow> jstring option" where
  "or_else a b = (if truthy a then a else b)"

text \<open>
  \<open>String(x)\<close> of a cell value; the program applies it to values it has found truthy.
\<close>

fun String_of :: "jstring option \<Rightarrow> jstring" where
  "String_of None = str ''undefined''"
| "String_of (Some s) = s"

text \<open>What \<open>typeof\<close> and truthiness tell apart in an argument that is declared a string.\<close>

datatype raw_value = Absent | NotAString | Text jstring

fun raw_of :: "jstring option \<Rightarrow> raw_value" where
  "raw_of None = Absent"
| "raw_of (Some s) = Text s"

text \<open>
  White space as \<open>trim\<close> and the pattern class \<open>\s\<close> see it: tab, line feed, vertical tab,
  form feed, carriage return, space, no-break space, U+1680, U+2000 to U+200A, U+2028,
  U+2029, U+202F, U+205F, U+3000 and U+FEFF.
\<close>

definition is_space :: "nat \<Rightarrow> bool" where
  "is_space c \<longleftrightarrow>
     c = 9 \<or> c = 10 \<or> c = 11 \<or> c = 12 \<or> c = 13 \<or> c = 32 \<or> c = 160 \<or> c = 5760 \<or>
     (8192 \<le> c \<and> c \<le> 8202) \<or> c = 8232 \<or> c = 8233 \<or> c = 8239 \<or> c = 8287 \<or>
     c = 12288 \<or> c = 65279"

definition is_digit :: "nat \<Rightarrow> bool" where
  "is_digit c \<longleftrightarrow> 48 \<le> c \<and> c \<le> 57"

definition trim :: "jstring \<Rightarrow> jstring" where
  "trim s = rev (dropWhile is_space (rev (dropWhile is_space s)))"

text \<open>
  \<open>toLowerCase\<close>, as far as the program can observe it. The program compares the lower-cased
  text with ASCII keys only, so what matters is which code units have an ASCII lower case:
  the letters A to Z and the Kelvin sign U+212A (8490), whose lower case is \<open>k\<close>. Every other
  code unit outside ASCII is kept as it is: its lower case has a code unit outside ASCII
  too (U+0130 gives \<open>i\<close> followed by U+0307), so no comparison with an ASCII key changes.
\<close>

definition lower_unit :: "nat \<Rightarrow> nat" where
  "lower_unit c = (if 65 \<le> c \<and> c \<le> 90 then c + 32 else if c = 8490 then 107 else c)"

definition toLowerCase :: "jstring \<Rightarrow> jstring" where
  "toLowerCase s = map lower_unit s"

definition startsWith :: "jstring \<Rightarrow> jstring \<Rightarrow> bool" where
  "startsWith s p \<longleftrightarrow> take (length p) s = p"

fun js_includes :: "jstring \<Rightarrow> jstring \<Rightarrow> bool" where
  "js_includes [] sub = (sub = [])"
| "js_includes (c # cs) sub = (startsWith (c # cs) sub \<or> js_includes cs sub)"

text \<open>
  \<open>s.split(sep)\<close>: the pieces between the occurrences of \<open>sep\<close>, found from the left;
  the empty separator cuts between all code units. \<open>cur\<close> is the piece being read.
\<close>

function split_from :: "jstring \<Rightarrow> jstring \<Rightarrow> jstring \<Rightarrow> jstring list" where
  "split_from sep cur [] = [cur]"
| "split_from sep cur (c # cs) =
     (if sep \<noteq> [] \<and> startsWith (c # cs) sep
      then cur # split_from sep [] (drop (length sep) (c # cs))
      else split_from sep (cur @ [c]) cs)"
  by pat_completeness auto
termination
  by (relation "measure (\<lambda>(sep, cur, s). length s)") auto

definition js_split :: "jstring \<Rightarrow> jstring \<Rightarrow> jstring list" where
  "js_split sep s = (if sep = [] then map (\<lambda>c. [c]) s else split_from sep [] s)"

fun join :: "jstring \<Rightarrow> jstring list \<Rightarrow> jstring" where
  "join sep [] = []"
| "join sep [p] = p"
| "join sep (p # q # ps) = p @ sep @ join sep (q # ps)"

text \<open>Reading an array at an index: \<open>undefined\<close> beyond the end.\<close>

definition nth_opt :: "'a list \<Rightarrow> nat \<Rightarrow> 'a option" where
  "nth_opt xs i = (if i < length xs then Some (xs ! i) else None)"

text \<open>\<open>findIndex\<close>: the first position that satisfies the test, \<open>None\<close> for \<open>-1\<close>.\<close>

fun findIndex :: "('a \<Rightarrow> bool) \<Rightarrow> 'a list \<Rightarrow> nat option" where
  "findIndex P [] = None"
| "findIndex P (x # xs) =
     (if P x then Some 0 else case findIndex P xs of None \<Rightarrow> None | Some i \<Rightarrow> Some (Suc i))"

section \<open>Regular expressions of the program\<close>

text \<open>
  Every pattern of the program is a sequence of quantified character classes, some of
  them capturing, possibly closed by \<open>$\<close>. A class is matched greedily, longest run first,
  and gives characters back while the rest of the pattern fails (backtracking), as the
  engine does. \<open>regex_match\<close> matches at the start of the input and returns the
  captured groups and the input left; \<open>regex_search\<close> tries every start from the left.
\<close>

datatype atom =
  Class (accepts: "nat \<Rightarrow> bool") (least: nat) (most: "nat option") (capturing: bool)
| EndOfInput

fun longest_first ::
  "(jstring \<Rightarrow> 'r option) \<Rightarrow> jstring \<Rightarrow> nat \<Rightarrow> nat \<Rightarrow> (jstring \<times> 'r) option" where
  "longest_first k s lo n =
     (case k (drop n s) of
        Some r \<Rightarrow> Some (take n s, r)
      | None \<Rightarrow> if n \<le> lo then None else longest_first k s lo (n - 1))"

declare longest_first.simps [simp del]

primrec regex_match :: "atom list \<Rightarrow> jstring \<Rightarrow> (jstring list \<times> jstring) option" where
  "regex_match [] s = Some ([], s)"
| "regex_match (a # as) s =
     (case a of
        EndOfInput \<Rightarrow> if s = [] then regex_match as s else None
      | Class ok lo hi cap \<Rightarrow>
          (let run = length (takeWhile ok s);
               top = (case hi of None \<Rightarrow> run | Some h \<Rightarrow> min h run)
           in if top < lo then None
              else case longest_first (regex_match as) s lo top of
                     None \<Rightarrow> None
                   | Some (taken, caps, rest) \<Rightarrow> Some (if cap then taken # caps else caps, rest)))"

fun regex_search :: "atom list \<Rightarrow> jstring \<Rightarrow> jstring list option" where
  "regex_search p [] = map_option fst (regex_match p [])"
| "regex_search p (c # cs) =
     (case regex_match p (c # cs) of
        Some (caps, rest) \<Rightarrow> Some caps
      | None \<Rightarrow> regex_search p cs)"

definition lit :: "nat \<Rightarrow> atom" where
  "lit c = Class (\<lambda>x. x = c) 1 (Some 1) False"

text \<open>A lower-case letter under the flag \<open>i\<close>: the letter or its capital.\<close>

definition lit_i :: "nat \<Rightarrow> atom" where
  "lit_i c = Class (\<lambda>x. x = c \<or> x + 32 = c) 1 (Some 1) False"

definition opt_lit :: "nat \<Rightarrow> atom" where
  "opt_lit c = Class (\<lambda>x. x = c) 0 (Some 1) False"

definition spaces :: atom where
  "spaces = Class is_space 0 None False"

definition digits_group :: atom where
  "digits_group = Class is_digit 1 None True"

text \<open>The class \<open>[-\<dots>]\<close> of the last pattern: the hyphen, the en dash and the em dash.\<close>

definition any_dash :: atom where
  "any_dash = Class (\<lambda>x. x = 45 \<or> x = 8211 \<or> x = 8212) 1 (Some 1) False"

section \<open>Data model (interfaces \<open>CslItem\<close>, \<open>CsvRow\<close>, \<open>GenerationResult\<close>)\<close>

datatype name_entry = FamilyGiven (family: jstring) (given: jstring) | Literal (literal: jstring)

text \<open>
  The value of \<open>type\<close> is what \<open>mapSourceType\<close> returns: a string, or, when the lookup in
  the synonym object finds a property inherited from \<open>Object.prototype\<close>, the value of that
  property (a function or an object, never a string).
\<close>

datatype type_value = TypeName jstring | Inherited jstring

text \<open>
  A number of the program that was read from digits: the integer itself, or the double
  nearest to an integer too large to be held exactly.
\<close>

datatype js_number = Number int | Rounded int

record CslItem =
  item_id :: jstring
  item_type :: type_value
  title :: "jstring option"
  author :: "name_entry list option"
  issued :: "js_number option"
  container_title :: "jstring option"
  volume :: "jstring option"
  issue :: "jstring option"
  page :: "jstring option"
  DOI :: "jstring option"
  URL :: "jstring option"
  publisher :: "jstring option"

type_synonym CsvRow = "jstring \<rightharpoonup> jstring"

record GenerationResult =
  success :: bool
  citations :: "jstring list"
  errors :: "jstring list"
  warnings :: "jstring list"
  csvData :: "CsvRow list"

section \<open>\<open>mapSourceType\<close>\<close>

text \<open>
  The synonym table is an object literal, so \<open>mapping[type]\<close> finds the table's own
  entries and, for any other key, the properties that every object inherits from
  \<open>Object.prototype\<close>; their values are functions and an object, all truthy.
\<close>

definition mapping :: "(jstring \<times> jstring) list" where
  "mapping =
     [(str ''journal article'', str ''article-journal''),
      (str ''journal'', str ''article-journal''),
      (str ''article'', str ''article-journal''),
      (str ''news article'', str ''article-newspaper''),
      (str ''newspaper'', str ''article-newspaper''),
      (str ''magazine'', str ''article-magazine''),
      (str ''book'', str ''book''),
      (str ''book chapter'', str ''chapter''),
      (str ''chapter'', str ''chapter''),
      (str ''conference paper'', str ''paper-conference''),
      (str ''conference'', str ''paper-conference''),
      (str ''thesis'', str ''thesis''),
      (str ''dissertation'', str ''thesis''),
      (str ''report'', str ''report''),
      (str ''webpage'', str ''webpage''),
      (str ''website'', str ''webpage''),
      (str ''blog post'', str ''post-weblog''),
      (str ''blog'', str ''post-weblog''),
      (str ''review'', str ''review'')]"

definition object_prototype :: "jstring list" where
  "object_prototype =
     [str ''constructor'', str ''__defineGetter__'', str ''__defineSetter__'',
      str ''hasOwnProperty'', str ''__lookupGetter__'', str ''__lookupSetter__'',
      str ''isPrototypeOf'', str ''propertyIsEnumerable'', str ''toString'',
      str ''valueOf'', str ''__proto__'', str ''toLocaleString'']"

definition mapSourceType :: "raw_value \<Rightarrow> type_value" where
  "mapSourceType rawType =
     (case rawType of
        Text s \<Rightarrow>
          if s = [] then TypeName (str ''article-journal'')
          else (let type = trim (toLowerCase s)
                in case map_of mapping type of
                     Some v \<Rightarrow> if v \<noteq> [] then TypeName v else TypeName (str ''webpage'')
                   | None \<Rightarrow> if type \<in> set object_prototype then Inherited type
                             else TypeName (str ''webpage''))
      | _ \<Rightarrow> TypeName (str ''article-journal''))"

section \<open>\<open>parseAuthors\<close>\<close>

text \<open>
  The body of the loop over \<open>authorList\<close>, as the entries it pushes for one author.
  \<open>split(',', 2)\<close> cuts at every comma and keeps the first two pieces.
\<close>

definition author_entries :: "jstring \<Rightarrow> name_entry list" where
  "author_entries one_author =
     (if one_author = [] then []
      else if js_includes one_author (str '','') then
        (let parts = map trim (take 2 (js_split (str '','') one_author))
         in if length parts = 2 \<and> parts ! 0 \<noteq> [] \<and> parts ! 1 \<noteq> []
            then [FamilyGiven (parts ! 0) (parts ! 1)] else [])
      else
        (let parts = js_split (str '' '') one_author
         in if length parts > 1 \<and> length (parts ! 0) > 1
            then [FamilyGiven (last parts) (join (str '' '') (butlast parts))]
            else [Literal one_author]))"

definition parseAuthors :: "raw_value \<Rightarrow> name_entry list" where
  "parseAuthors authorCell =
     (case authorCell of
        Text cell \<Rightarrow>
          if cell = [] \<or> trim cell = [] then []
          else (let authorStr = trim cell;
                    authorList =
                      (if js_includes authorStr (str '';'')
                       then map trim (js_split (str '';'') authorStr)
                       else if js_includes authorStr (str '' & '')
                       then map trim (js_split (str '' & '') authorStr)
                       else if js_includes authorStr (str '' and '')
                       then map trim (js_split (str '' and '') authorStr)
                       else [authorStr])
                in foldl (\<lambda>cslAuthors one_author. cslAuthors @ author_entries one_author) [] authorList)
      | _ \<Rightarrow> [])"

section \<open>\<open>parseVolumeIssue\<close>\<close>

record VolumeIssue =
  vi_volume :: "jstring option"
  vi_issue :: "jstring option"

text \<open>
  The four patterns, in the order of the array: \<open>(\d+)\s*\(\s*(\d+)\s*\)\<close>,
  \<open>vol\.?\s*(\d+)\s*no\.?\s*(\d+)\<close> and \<open>v\.?\s*(\d+)\s*n\.?\s*(\d+)\<close> with the
  flag \<open>i\<close>, and \<open>(\d+)\s*[-\<dots>]\s*(\d+)\<close> whose class holds the hyphen (45), the en
  dash (8211) and the em dash (8212).
\<close>

definition patterns :: "atom list list" where
  "patterns =
     [[digits_group, spaces, lit 40, spaces, digits_group, spaces, lit 41],
      [lit_i 118, lit_i 111, lit_i 108, opt_lit 46, spaces, digits_group, spaces,
       lit_i 110, lit_i 111, opt_lit 46, spaces, digits_group],
      [lit_i 118, opt_lit 46, spaces, digits_group, spaces,
       lit_i 110, opt_lit 46, spaces, digits_group],
      [digits_group, spaces, any_dash, spaces, digits_group]]"

text \<open>The loop over the patterns returns at the first match; \<open>match[1]\<close> and
  \<open>match[2]\<close> are the first and second group.\<close>

fun first_match :: "atom list list \<Rightarrow> jstring \<Rightarrow> VolumeIssue option" where
  "first_match [] text = None"
| "first_match (pattern # rest) text =
     (case regex_search pattern text of
        Some groups \<Rightarrow> Some \<lparr>vi_volume = nth_opt groups 0, vi_issue = nth_opt groups 1\<rparr>
      | None \<Rightarrow> first_match rest text)"

definition parseVolumeIssue :: "raw_value \<Rightarrow> VolumeIssue" where
  "parseVolumeIssue cell =
     (case cell of
        Text c \<Rightarrow>
          if c = [] then \<lparr>vi_volume = None, vi_issue = None\<rparr>
          else (let text = trim c
                in case first_match patterns text of
                     Some found \<Rightarrow> found
                   | None \<Rightarrow>
                       if regex_match [Class is_digit 1 None False, EndOfInput] text \<noteq> None
                       then \<lparr>vi_volume = Some text, vi_issue = None\<rparr>
                       else \<lparr>vi_volume = None, vi_issue = None\<rparr>)
      | _ \<Rightarrow> \<lparr>vi_volume = None, vi_issue = None\<rparr>)"

section \<open>\<open>createCslItem\<close>\<close>

text \<open>
  \<open>parseInt(year, 10)\<close>: leading white space, an optional sign, then the longest run of
  digits; \<open>None\<close> is \<open>NaN\<close>. The result is a double: it is the integer that the digits
  write as long as this is at most \<open>2^53\<close> in absolute value, and the double that the engine
  rounds it to beyond (\<open>Rounded\<close>, which keeps the digits read and not the double).
\<close>

definition parseInt10 :: "jstring \<Rightarrow> js_number option" where
  "parseInt10 s =
     (let t = dropWhile is_space s;
          negative = (t \<noteq> [] \<and> hd t = 45);
          u = (if t \<noteq> [] \<and> (hd t = 45 \<or> hd t = 43) then tl t else t);
          ds = takeWhile is_digit u;
          n = int (foldl (\<lambda>a d. 10 * a + (d - 48)) 0 ds)
      in if ds = [] then None
         else Some (if n \<le> 9007199254740992 then Number (if negative then - n else n)
                    else Rounded (if negative then - n else n)))"

text \<open>
  The function fills the item block by block, each block reading some columns of the row.
  The blocks are kept in the order of the source. The notes written to the debug log are
  left out: they do not change the item.
\<close>

definition new_item :: "CsvRow \<Rightarrow> nat \<Rightarrow> CslItem" where
  "new_item row index =
     \<lparr>item_id = str ''item_'' @ string_of_nat (index + 1),
      item_type = mapSourceType
        (raw_of (or_else (or_else (row (str ''Source Type'')) (row (str ''type''))) (Some []))),
      title = None, author = None, issued = None, container_title = None, volume = None,
      issue = None, page = None, DOI = None, URL = None, publisher = None\<rparr>"

definition set_title :: "CsvRow \<Rightarrow> CslItem \<Rightarrow> CslItem" where
  "set_title row item =
     (if truthy (or_else (row (str ''Title'')) (row (str ''title'')))
      then item\<lparr>title := Some (trim (String_of (or_else (row (str ''Title'')) (row (str ''title'')))))\<rparr>
      else item)"

definition set_author :: "CsvRow \<Rightarrow> CslItem \<Rightarrow> CslItem" where
  "set_author row item =
     (let authors = parseAuthors (raw_of
            (or_else (or_else (or_else (row (str ''Author(s)'')) (row (str ''Authors'')))
               (row (str ''Author''))) (row (str ''author''))))
      in if length authors > 0 then item\<lparr>author := Some authors\<rparr> else item)"

definition set_issued :: "CsvRow \<Rightarrow> CslItem \<Rightarrow> CslItem" where
  "set_issued row item =
     (let year = or_else (or_else (or_else (row (str ''Year'')) (row (str ''Publication Year'')))
            (row (str ''Date''))) (row (str ''year''))
      in if truthy year \<and> parseInt10 (String_of year) \<noteq> None
         then item\<lparr>issued := parseInt10 (String_of year)\<rparr> else item)"

definition set_container_title :: "CsvRow \<Rightarrow> CslItem \<Rightarrow> CslItem" where
  "set_container_title row item =
     (let containerTitle =
            or_else (or_else (or_else (or_else (row (str ''Journal'')) (row (str ''Publication'')))
              (row (str ''Container Title''))) (row (str ''Source''))) (row (str ''container-title''))
      in if truthy containerTitle
         then item\<lparr>container_title := Some (trim (String_of containerTitle))\<rparr> else item)"

definition set_volume_issue :: "CsvRow \<Rightarrow> CslItem \<Rightarrow> CslItem" where
  "set_volume_issue row item =
     (let volIss = parseVolumeIssue (raw_of
            (or_else (or_else (or_else (row (str ''Volume'')) (row (str ''Volume-Issue'')))
               (row (str ''volume''))) (Some [])));
          item1 = (if truthy (vi_volume volIss) then item\<lparr>volume := vi_volume volIss\<rparr> else item)
      in if truthy (vi_issue volIss) then item1\<lparr>issue := vi_issue volIss\<rparr>
         else if truthy (or_else (row (str ''Issue'')) (row (str ''issue'')))
         then item1\<lparr>issue := Some (trim (String_of (or_else (row (str ''Issue'')) (row (str ''issue'')))))\<rparr>
         else item1)"

definition set_page :: "CsvRow \<Rightarrow> CslItem \<Rightarrow> CslItem" where
  "set_page row item =
     (let pages = or_else (or_else (or_else (row (str ''Pages'')) (row (str ''Page Range'')))
            (row (str ''Page''))) (row (str ''page''))
      in if truthy pages then item\<lparr>page := Some (trim (String_of pages))\<rparr> else item)"

text \<open>
  \<open>doi.replace(/^https?:\/\/doi\.org\//, '')\<close>: when the pattern matches at the start,
  what follows the match; the string itself otherwise.
\<close>

definition doi_org :: "atom list" where
  "doi_org = map lit (str ''http'') @ [opt_lit 115] @ map lit (str ''://doi.org/'')"

definition strip_doi_org :: "jstring \<Rightarrow> jstring" where
  "strip_doi_org doi = (case regex_match doi_org doi of Some (groups, rest) \<Rightarrow> rest | None \<Rightarrow> doi)"

definition set_doi :: "CsvRow \<Rightarrow> CslItem \<Rightarrow> CslItem" where
  "set_doi row item =
     (let doiField = or_else (or_else (row (str ''DOI'')) (row (str ''DOI/URL''))) (row (str ''doi''))
      in if truthy doiField then
           (let doi = trim (String_of doiField)
            in if startsWith doi (str ''http'') then
                 (if js_includes doi (str ''doi.org/'') then item\<lparr>DOI := Some (strip_doi_org doi)\<rparr>
                  else item\<lparr>URL := Some doi\<rparr>)
               else if startsWith doi (str ''10.'') then item\<lparr>DOI := Some doi\<rparr>
               else item)
         else item)"

definition set_url :: "CsvRow \<Rightarrow> CslItem \<Rightarrow> CslItem" where
  "set_url row item =
     (let url = or_else (row (str ''URL'')) (row (str ''url''))
      in if truthy url \<and> \<not> truthy (DOI item) \<and> \<not> truthy (URL item) then
           (if startsWith (trim (String_of url)) (str ''http'')
            then item\<lparr>URL := Some (trim (String_of url))\<rparr> else item)
         else item)"

definition set_publisher :: "CsvRow \<Rightarrow> CslItem \<Rightarrow> CslItem" where
  "set_publisher row item =
     (if truthy (or_else (row (str ''Publisher'')) (row (str ''publisher'')))
      then item\<lparr>publisher :=
             Some (trim (String_of (or_else (row (str ''Publisher'')) (row (str ''publisher'')))))\<rparr>
      else item)"

definition createCslItem :: "CsvRow \<Rightarrow> nat \<Rightarrow> CslItem" where
  "createCslItem row index =
     set_publisher row (set_url row (set_doi row (set_page row (set_volume_issue row
       (set_container_title row (set_issued row (set_author row (set_title row
          (new_item row index)))))))))"

section \<open>\<open>validateCslItems\<close>\<close>

text \<open>
  The body of the \<open>forEach\<close> callback: \<open>itemErrors\<close> collects the violated rules of one
  item; the item is pushed to \<open>valid\<close> when there is none, its errors are appended to
  \<open>errors\<close> otherwise. An array is truthy even when empty, a string only when non-empty.
\<close>

definition itemErrors :: "nat \<Rightarrow> CslItem \<Rightarrow> jstring list" where
  "itemErrors index item =
     (if \<not> truthy (title item) \<and> author item = None
      then [str ''Item '' @ string_of_nat (index + 1) @ str '': Missing both title and author'']
      else []) @
     (if item_type item = TypeName (str ''article-journal'') \<and> \<not> truthy (container_title item)
      then [str ''Item '' @ string_of_nat (index + 1) @ str '': Journal articles require a journal name'']
      else [])"

definition validate_step ::
  "CslItem list \<times> jstring list \<Rightarrow> nat \<times> CslItem \<Rightarrow> CslItem list \<times> jstring list" where
  "validate_step acc p =
     (case acc of (valid, errs) \<Rightarrow>
      case p of (index, item) \<Rightarrow>
        if length (itemErrors index item) = 0 then (valid @ [item], errs)
        else (valid, errs @ itemErrors index item))"

definition validateCslItems :: "CslItem list \<Rightarrow> CslItem list \<times> jstring list" where
  "validateCslItems items = foldl validate_step ([], []) (enumerate 0 items)"

section \<open>\<open>handleGeneration\<close>\<close>

text \<open>
  What the handler awaits before it builds the items (the sheet or the file, the CSV
  parser, the style and the locale) is outside the program: its outcome is an input of the
  model, either a thrown value or the parsed rows with the style and the locale. The
  renderer \<open>generateCitations\<close> drives the external engine and is a parameter too; it
  returns the citations and its errors, with \<open>citations: []\<close> whenever the engine fails.
\<close>

datatype thrown = Error jstring | NotAnError

type_synonym awaited = "thrown + CsvRow list \<times> jstring \<times> jstring"

type_synonym renderer = "CslItem list \<Rightarrow> jstring \<Rightarrow> jstring \<Rightarrow> jstring list \<times> jstring list"

record Inputs =
  gsheetUrl :: jstring
  csvFile :: bool
  librariesLoaded :: bool
  awaited_data :: awaited

text \<open>\<open>jsonData.map((row, index) => createCslItem(row, index))\<close>.\<close>

definition build_items :: "CsvRow list \<Rightarrow> CslItem list" where
  "build_items jsonData = map (\<lambda>(index, row). createCslItem row index) (enumerate 0 jsonData)"

text \<open>The callback that builds one row of \<open>finalCsvData\<close>.\<close>

definition final_row ::
  "CslItem list \<Rightarrow> CslItem list \<Rightarrow> jstring list \<Rightarrow> nat \<times> CsvRow \<Rightarrow> CsvRow" where
  "final_row cslItems validItems cites p =
     (case p of (index, row) \<Rightarrow>
        let correspondingCslItem =
              find (\<lambda>csl. item_id csl = str ''item_'' @ string_of_nat (index + 1)) cslItems;
            validIndex =
              findIndex (\<lambda>validItem. Some (item_id validItem) = map_option item_id correspondingCslItem)
                validItems;
            citation =
              (case validIndex of
                 None \<Rightarrow> str ''Skipped due to validation errors.''
               | Some i \<Rightarrow>
                   String_of (or_else (nth_opt cites i) (Some (str ''Error: Could not generate citation.''))))
        in row(str ''APA 7 Citation'' \<mapsto> citation))"

text \<open>The body of the \<open>try\<close> block: \<open>Inl\<close> is a thrown value, \<open>Inr\<close> the result it sets.\<close>

definition generation :: "awaited \<Rightarrow> renderer \<Rightarrow> thrown + GenerationResult" where
  "generation data generateCitations =
     (case data of
        Inl e \<Rightarrow> Inl e
      | Inr (jsonData, cslStyle, enLocale) \<Rightarrow>
          let cslItems = build_items jsonData;
              validItems = fst (validateCslItems cslItems);
              validationErrors = snd (validateCslItems cslItems)
          in if length validItems = 0
             then Inl (Error (str ''No valid citation items found. Please check your data format.''))
             else
               let cites = fst (generateCitations validItems cslStyle enLocale);
                   citationErrors = snd (generateCitations validItems cslStyle enLocale);
                   allErrors = validationErrors @ citationErrors;
                   warns =
                     (if length validItems < length cslItems
                      then [string_of_nat (length cslItems - length cslItems) @
                            str '' items were skipped due to validation errors'']
                      else []);
                   finalCsvData = map (final_row cslItems validItems cites) (enumerate 0 jsonData)
               in Inr \<lparr>success = length cites > 0, citations = cites, errors = allErrors,
                       warnings = warns, csvData = finalCsvData\<rparr>)"

text \<open>
  The handler. The state it leaves in \<open>result\<close> is returned: the previous value when it
  returns before starting, the result of the run or the failure record otherwise.
\<close>

definition handleGeneration ::
  "Inputs \<Rightarrow> renderer \<Rightarrow> GenerationResult option \<Rightarrow> GenerationResult option" where
  "handleGeneration inp generateCitations previous =
     (if gsheetUrl inp = [] \<and> \<not> csvFile inp then previous
      else if \<not> librariesLoaded inp then previous
      else case generation (awaited_data inp) generateCitations of
             Inr r \<Rightarrow> Some r
           | Inl e \<Rightarrow>
               let errorMessage = (case e of Error message \<Rightarrow> message
                                   | NotAnError \<Rightarrow> str ''Unknown error occurred'')
               in Some \<lparr>success = False, citations = [], errors = [errorMessage],
                        warnings = [], csvData = []\<rparr>)"

section \<open>The second copy of the component (\<open>src/unnamed/part_000\<close>)\<close>

text \<open>
  The repository holds a second file with the same component. Its \<open>mapSourceType\<close>,
  \<open>parseAuthors\<close>, \<open>parseVolumeIssue\<close> and \<open>validateCslItems\<close> are the same text. Its
  \<open>createCslItem\<close> reads fewer column names (no lower-case aliases). Its
  \<open>handleGeneration\<close> has no check of the libraries, counts the skipped items as
  \<open>cslItems.length - validItems.length\<close>, and builds the final rows from
  \<open>citations[index]\<close>, the citation at the position of the row.
\<close>

definition createCslItem_part_000 :: "CsvRow \<Rightarrow> nat \<Rightarrow> CslItem" where
  "createCslItem_part_000 row index =
     (let item0 =
            \<lparr>item_id = str ''item_'' @ string_of_nat (index + 1),
             item_type = mapSourceType (raw_of (or_else (row (str ''Source Type'')) (Some []))),
             title = None, author = None, issued = None, container_title = None, volume = None,
             issue = None, page = None, DOI = None, URL = None, publisher = None\<rparr>;
          item1 = (if truthy (row (str ''Title''))
                   then item0\<lparr>title := Some (trim (String_of (row (str ''Title''))))\<rparr> else item0);
          authors = parseAuthors (raw_of
            (or_else (or_else (row (str ''Author(s)'')) (row (str ''Authors''))) (row (str ''Author''))));
          item2 = (if length authors > 0 then item1\<lparr>author := Some authors\<rparr> else item1);
          year = or_else (or_else (row (str ''Year'')) (row (str ''Publication Year''))) (row (str ''Date''));
          item3 = (if truthy year \<and> parseInt10 (String_of year) \<noteq> None
                   then item2\<lparr>issued := parseInt10 (String_of year)\<rparr> else item2);
          containerTitle =
            or_else (or_else (or_else (row (str ''Journal'')) (row (str ''Publication'')))
              (row (str ''Container Title''))) (row (str ''Source''));
          item4 = (if truthy containerTitle
                   then item3\<lparr>container_title := Some (trim (String_of containerTitle))\<rparr> else item3);
          volIss = parseVolumeIssue (raw_of
            (or_else (or_else (row (str ''Volume'')) (row (str ''Volume-Issue''))) (Some [])));
          item5 = (if truthy (vi_volume volIss) then item4\<lparr>volume := vi_volume volIss\<rparr> else item4);
          item6 = (if truthy (vi_issue volIss) then item5\<lparr>issue := vi_issue volIss\<rparr>
                   else if truthy (row (str ''Issue''))
                   then item5\<lparr>issue := Some (trim (String_of (row (str ''Issue''))))\<rparr> else item5);
          pages = or_else (or_else (row (str ''Pages'')) (row (str ''Page Range''))) (row (str ''Page''));
          item7 = (if truthy pages then item6\<lparr>page := Some (trim (String_of pages))\<rparr> else item6);
          doiField = or_else (row (str ''DOI'')) (row (str ''DOI/URL''));
          doi = trim (String_of doiField);
          item8 = (if truthy doiField then
                     (if startsWith doi (str ''http'') then
                        (if js_includes doi (str ''doi.org/'')
                         then item7\<lparr>DOI := Some (strip_doi_org doi)\<rparr>
                         else item7\<lparr>URL := Some doi\<rparr>)
                      else if startsWith doi (str ''10.'') then item7\<lparr>DOI := Some doi\<rparr>
                      else item7)
                   else item7);
          url = row (str ''URL'');
          item9 = (if truthy url \<and> \<not> truthy (DOI item8) \<and> \<not> truthy (URL item8) then
                     (if startsWith (trim (String_of url)) (str ''http'')
                      then item8\<lparr>URL := Some (trim (String_of url))\<rparr> else item8)
                   else item8)
      in if truthy (row (str ''Publisher''))
         then item9\<lparr>publisher := Some (trim (String_of (row (str ''Publisher''))))\<rparr>
         else item9)"

definition build_items_part_000 :: "CsvRow list \<Rightarrow> CslItem list" where
  "build_items_part_000 jsonData =
     map (\<lambda>(index, row). createCslItem_part_000 row index) (enumerate 0 jsonData)"

definition final_row_part_000 :: "jstring list \<Rightarrow> nat \<times> CsvRow \<Rightarrow> CsvRow" where
  "final_row_part_000 cites p =
     (case p of (index, row) \<Rightarrow>
        row(str ''APA 7 Citation'' \<mapsto>
              String_of (or_else (nth_opt cites index)
                (Some (str ''Error: Could not generate citation.'')))))"

definition generation_part_000 :: "awaited \<Rightarrow> renderer \<Rightarrow> thrown + GenerationResult" where
  "generation_part_000 data generateCitations =
     (case data of
        Inl e \<Rightarrow> Inl e
      | Inr (jsonData, cslStyle, enLocale) \<Rightarrow>
          let cslItems = build_items_part_000 jsonData;
              validItems = fst (validateCslItems cslItems);
              validationErrors = snd (validateCslItems cslItems)
          in if length validItems = 0
             then Inl (Error (str ''No valid citation items found. Please check your data format.''))
             else
               let cites = fst (generateCitations validItems cslStyle enLocale);
                   citationErrors = snd (generateCitations validItems cslStyle enLocale);
                   allErrors = validationErrors @ citationErrors;
                   warns =
                     (if length validItems < length cslItems
                      then [string_of_nat (length cslItems - length validItems) @
                            str '' items were skipped due to validation errors'']
                      else []);
                   finalCsvData = map (final_row_part_000 cites) (enumerate 0 jsonData)
               in Inr \<lparr>success = length cites > 0, citations = cites, errors = allErrors,
                       warnings = warns, csvData = finalCsvData\<rparr>)"

definition handleGeneration_part_000 ::
  "Inputs \<Rightarrow> renderer \<Rightarrow> GenerationResult option \<Rightarrow> GenerationResult option" where
  "handleGeneration_part_000 inp generateCitations previous =
     (if gsheetUrl inp = [] \<and> \<not> csvFile inp then previous
      else case generation_part_000 (awaited_data inp) generateCitations of
             Inr r \<Rightarrow> Some r
           | Inl e \<Rightarrow>
               let errorMessage = (case e of Error message \<Rightarrow> message
                                   | NotAnError \<Rightarrow> str ''Unknown error occurred'')
               in Some \<lparr>success = False, citations = [], errors = [errorMessage],
                        warnings = [], csvData = []\<rparr>)"

section \<open>Vocabulary of the specification\<close>

text \<open>
  The rejection rule and the error list in the words of the specification: an item is
  rejected when it has neither title nor author, or when it is a journal article without
  a container title. Having a title or a container title means having a non-empty one.
\<close>

definition rejected :: "CslItem \<Rightarrow> bool" where
  "rejected item \<longleftrightarrow>
     (\<not> truthy (title item) \<and> author item = None) \<or>
     (item_type item = TypeName (str ''article-journal'') \<and> \<not> truthy (container_title item))"

definition violated_rules :: "CslItem \<Rightarrow> jstring list" where
  "violated_rules item =
     (if \<not> truthy (title item) \<and> author item = None
      then [str ''Missing both title and author''] else []) @
     (if item_type item = TypeName (str ''article-journal'') \<and> \<not> truthy (container_title item)
      then [str ''Journal articles require a journal name''] else [])"

definition item_prefix :: "nat \<Rightarrow> jstring" where
  "item_prefix position = str ''Item '' @ string_of_nat position @ str '': ''"

text \<open>
  What a pattern means, without the search: a text matches a sequence of atoms when it can
  be cut into one piece per atom, each piece fitting its atom (only characters of the
  class, as many as the quantifier allows). The groups are the pieces of the capturing
  atoms. A pattern occurs in a text when some part of the text matches it.
\<close>

fun is_capturing :: "atom \<Rightarrow> bool" where
  "is_capturing (Class ok lo hi cap) = cap"
| "is_capturing EndOfInput = False"

fun fits :: "atom \<Rightarrow> jstring \<Rightarrow> bool" where
  "fits (Class ok lo hi cap) w \<longleftrightarrow>
     list_all ok w \<and> lo \<le> length w \<and> (case hi of None \<Rightarrow> True | Some h \<Rightarrow> length w \<le> h)"
| "fits EndOfInput w \<longleftrightarrow> w = []"

definition groups_of :: "atom list \<Rightarrow> jstring list \<Rightarrow> jstring list" where
  "groups_of p ws = map snd (filter (\<lambda>(a, w). is_capturing a) (zip p ws))"

definition occurs :: "atom list \<Rightarrow> jstring \<Rightarrow> bool" where
  "occurs p text \<longleftrightarrow> (\<exists>pre ws post. text = pre @ concat ws @ post \<and> list_all2 fits p ws)"

text \<open>
  The four patterns in the words of the specification, written without the atoms of the
  matcher. A number is a non-empty run of the digits 0 to 9, a blank is a possibly empty
  run of white space, a dot may be there or not, and a letter of the two middle patterns
  may be written small or capital. \<open>form i ws N M\<close> says that the pieces \<open>ws\<close>, read one
  after the other, are an instance of the pattern at position \<open>i\<close> with the numbers \<open>N\<close> and
  \<open>M\<close>: \<open>N ( M )\<close> for 0, \<open>vol. N no. M\<close> for 1, \<open>v. N n. M\<close> for 2 and \<open>N - M\<close> for 3,
  where the dash is the hyphen (45), the en dash (8211) or the em dash (8212).
\<close>

definition number :: "jstring \<Rightarrow> bool" where
  "number w \<longleftrightarrow> w \<noteq> [] \<and> list_all (\<lambda>c. 48 \<le> c \<and> c \<le> 57) w"

definition blank :: "jstring \<Rightarrow> bool" where
  "blank w \<longleftrightarrow> list_all is_space w"

definition dot :: "jstring \<Rightarrow> bool" where
  "dot w \<longleftrightarrow> w = [] \<or> w = str ''.''"

definition letter :: "string \<Rightarrow> string \<Rightarrow> jstring \<Rightarrow> bool" where
  "letter small capital w \<longleftrightarrow> w = str small \<or> w = str capital"

definition dash :: "jstring \<Rightarrow> bool" where
  "dash w \<longleftrightarrow> w = str ''-'' \<or> w = [8211] \<or> w = [8212]"

definition form :: "nat \<Rightarrow> jstring list \<Rightarrow> jstring \<Rightarrow> jstring \<Rightarrow> bool" where
  "form i ws N M \<longleftrightarrow>
     number N \<and> number M \<and>
     (i = 0 \<and> (\<exists>a b c. ws = [N, a, str ''('', b, M, c, str '')''] \<and> blank a \<and> blank b \<and> blank c) \<or>
      i = 1 \<and> (\<exists>v1 o1 l1 d1 a b n2 o2 d2 c.
                 ws = [v1, o1, l1, d1, a, N, b, n2, o2, d2, c, M] \<and>
                 letter ''v'' ''V'' v1 \<and> letter ''o'' ''O'' o1 \<and> letter ''l'' ''L'' l1 \<and> dot d1 \<and>
                 blank a \<and> blank b \<and>
                 letter ''n'' ''N'' n2 \<and> letter ''o'' ''O'' o2 \<and> dot d2 \<and> blank c) \<or>
      i = 2 \<and> (\<exists>v1 d1 a b n2 d2 c.
                 ws = [v1, d1, a, N, b, n2, d2, c, M] \<and>
                 letter ''v'' ''V'' v1 \<and> dot d1 \<and> blank a \<and> blank b \<and>
                 letter ''n'' ''N'' n2 \<and> dot d2 \<and> blank c) \<or>
      i = 3 \<and> (\<exists>a h b. ws = [N, a, h, b, M] \<and> blank a \<and> dash h \<and> blank b))"

definition has_form :: "nat \<Rightarrow> jstring list \<Rightarrow> bool" where
  "has_form i ws \<longleftrightarrow> (\<exists>N M. form i ws N M)"

text \<open>
  A pattern is found in a text when some part of the text is an instance of it; the
  pattern at position \<open>i\<close> is the first pattern found when none before it is found.
\<close>

definition found :: "nat \<Rightarrow> jstring \<Rightarrow> bool" where
  "found i text \<longleftrightarrow> (\<exists>pre ws post. text = pre @ concat ws @ post \<and> has_form i ws)"

definition first_found :: "jstring \<Rightarrow> nat \<Rightarrow> bool" where
  "first_found text i \<longleftrightarrow> i < 4 \<and> found i text \<and> (\<forall>j<i. \<not> found j text)"

text \<open>
  Which instance a search returns when a text holds several: the one that starts first,
  and among those that start there the one whose pieces are longest, the earlier piece
  deciding (every quantifier of the patterns is greedy). \<open>greedier xs ys\<close> compares the
  lengths of the pieces of two instances; \<open>leftmost_greedy Q text pre ws post\<close> says that
  \<open>ws\<close>, between \<open>pre\<close> and \<open>post\<close>, is that instance among the piece lists that satisfy \<open>Q\<close>.
\<close>

fun greedier :: "nat list \<Rightarrow> nat list \<Rightarrow> bool" where
  "greedier [] [] = True"
| "greedier (x # xs) (y # ys) = (y < x \<or> (x = y \<and> greedier xs ys))"
| "greedier [] (y # ys) = False"
| "greedier (x # xs) [] = False"

definition leftmost_greedy ::
  "(jstring list \<Rightarrow> bool) \<Rightarrow> jstring \<Rightarrow> jstring \<Rightarrow> jstring list \<Rightarrow> jstring \<Rightarrow> bool" where
  "leftmost_greedy Q text pre ws post \<longleftrightarrow>
     text = pre @ concat ws @ post \<and> Q ws \<and>
     (\<forall>pre' ws' post'. text = pre' @ concat ws' @ post' \<and> Q ws' \<longrightarrow>
        length pre < length pre' \<or>
        (length pre' = length pre \<and> greedier (map length ws) (map length ws')))"

text \<open>
  The author parser in the words of the amended claim. The fragments of a trimmed cell are
  the trimmed pieces between its semicolons, else between its \<open>" & "\<close>, else between its
  \<open>" and "\<close>, else the cell itself. A fragment with a comma gives the text before the
  first comma as family name and the text between the first and the second comma (or the
  end) as given name, both trimmed, and nothing when one of them is empty. A fragment with
  a space and no comma, whose text before the first space is longer than one character,
  gives the text after the last space as family name and the text before the last space
  as given name. Any other non-empty fragment is a literal name.
\<close>

definition before_first :: "nat \<Rightarrow> jstring \<Rightarrow> jstring" where
  "before_first c s = takeWhile (\<lambda>x. x \<noteq> c) s"

definition after_first :: "nat \<Rightarrow> jstring \<Rightarrow> jstring" where
  "after_first c s = tl (dropWhile (\<lambda>x. x \<noteq> c) s)"

definition before_last :: "nat \<Rightarrow> jstring \<Rightarrow> jstring" where
  "before_last c s = rev (tl (dropWhile (\<lambda>x. x \<noteq> c) (rev s)))"

definition after_last :: "nat \<Rightarrow> jstring \<Rightarrow> jstring" where
  "after_last c s = rev (takeWhile (\<lambda>x. x \<noteq> c) (rev s))"

definition fragments :: "jstring \<Rightarrow> jstring list" where
  "fragments s =
     (if 59 \<in> set s then map trim (js_split (str '';'') s)
      else if js_includes s (str '' & '') then map trim (js_split (str '' & '') s)
      else if js_includes s (str '' and '') then map trim (js_split (str '' and '') s)
      else [s])"

definition entries_of_fragment :: "jstring \<Rightarrow> name_entry list" where
  "entries_of_fragment f =
     (if f = [] then []
      else if 44 \<in> set f then
        (if trim (before_first 44 f) \<noteq> [] \<and> trim (before_first 44 (after_first 44 f)) \<noteq> []
         then [FamilyGiven (trim (before_first 44 f)) (trim (before_first 44 (after_first 44 f)))]
         else [])
      else if 32 \<in> set f \<and> length (before_first 32 f) > 1
      then [FamilyGiven (after_last 32 f) (before_last 32 f)]
      else [Literal f])"

text \<open>
  The cells that the identifier block of \<open>createCslItem\<close> reads: \<open>doiField\<close> and
  \<open>url\<close> of the source.
\<close>

definition doiField :: "CsvRow \<Rightarrow> jstring option" where
  "doiField row = or_else (or_else (row (str ''DOI'')) (row (str ''DOI/URL''))) (row (str ''doi''))"

definition urlField :: "CsvRow \<Rightarrow> jstring option" where
  "urlField row = or_else (row (str ''URL'')) (row (str ''url''))"

section \<open>Example data\<close>

text \<open>An item with no optional field, the starting point of the examples.\<close>

definition blank_item :: CslItem where
  "blank_item = \<lparr>item_id = str ''item_1'', item_type = TypeName (str ''article-journal''),
      title = None, author = None, issued = None, container_title = None, volume = None,
      issue = None, page = None, DOI = None, URL = None, publisher = None\<rparr>"

text \<open>
  Rows, inputs and renderers of the examples: a row without columns, a row with a title
  and the source type of a book, the same row with a citation column already present; a
  run from an uploaded file whose rows are given; a renderer that returns given citations,
  and one whose engine fails.
\<close>

definition row_blank :: CsvRow where
  "row_blank = Map.empty"

definition row_titled :: CsvRow where
  "row_titled = [str ''Title'' \<mapsto> str ''T'', str ''Source Type'' \<mapsto> str ''book'']"

definition row_cited :: CsvRow where
  "row_cited = [str ''Title'' \<mapsto> str ''T'', str ''Source Type'' \<mapsto> str ''book'',
                str ''APA 7 Citation'' \<mapsto> str ''old'']"

definition run_on :: "CsvRow list \<Rightarrow> Inputs" where
  "run_on rows = \<lparr>gsheetUrl = [], csvFile = True, librariesLoaded = True,
                   awaited_data = Inr (rows, [], [])\<rparr>"

definition render_fixed :: "jstring list \<Rightarrow> renderer" where
  "render_fixed cites = (\<lambda>validItems cslStyle locale. (cites, []))"

definition engine_fails :: renderer where
  "engine_fails =
     (\<lambda>validItems cslStyle locale. ([], [str ''Citation generation failed: Error: no engine'']))"

text \<open>A row with an identifier cell and a separate URL column.\<close>

definition row_doi :: "jstring \<Rightarrow> CsvRow" where
  "row_doi cell = [str ''DOI'' \<mapsto> cell, str ''URL'' \<mapsto> str ''https://example.org/b'']"

section \<open>The matcher finds what the patterns mean\<close>

lemma longest_first_Some:
  "longest_first k s lo n = Some (t, r) \<Longrightarrow> lo \<le> n \<Longrightarrow>
     \<exists>m. lo \<le> m \<and> m \<le> n \<and> t = take m s \<and> k (drop m s) = Some r"
proof (induction k s lo n rule: longest_first.induct)
  case (1 k s lo n)
  show ?case
  proof (cases "k (drop n s)")
    case (Some r')
    with "1.prems" show ?thesis by (auto simp: longest_first.simps [of k s lo n])
  next
    case None
    with "1.prems" have less: "\<not> n \<le> lo" and rec: "longest_first k s lo (n - 1) = Some (t, r)"
      by (auto simp: longest_first.simps [of k s lo n] split: if_splits)
    from less "1.prems" have "lo \<le> n - 1" by simp
    from "1.IH" [OF None less rec this] show ?thesis by (metis diff_le_self le_trans)
  qed
qed

lemma longest_first_None:
  "lo \<le> n \<Longrightarrow> longest_first k s lo n = None \<longleftrightarrow> (\<forall>m. lo \<le> m \<and> m \<le> n \<longrightarrow> k (drop m s) = None)"
proof (induction k s lo n rule: longest_first.induct)
  case (1 k s lo n)
  show ?case
  proof (cases "k (drop n s)")
    case (Some r')
    with "1.prems" show ?thesis by (auto simp: longest_first.simps [of k s lo n])
  next
    case None
    show ?thesis
    proof (cases "n \<le> lo")
      case True
      with "1.prems" have "lo = n" by simp
      moreover have "longest_first k s lo n = None"
        using None True by (simp add: longest_first.simps [of k s lo n])
      ultimately show ?thesis using None by auto
    next
      case False
      with "1.prems" have "lo \<le> n - 1" by simp
      have step: "longest_first k s lo n = longest_first k s lo (n - 1)"
        using None False by (simp add: longest_first.simps [of k s lo n])
      have "(\<forall>m. lo \<le> m \<and> m \<le> n \<longrightarrow> k (drop m s) = None) \<longleftrightarrow>
            (\<forall>m. lo \<le> m \<and> m \<le> n - 1 \<longrightarrow> k (drop m s) = None)"
      proof (intro iffI allI impI)
        fix m assume a: "\<forall>m. lo \<le> m \<and> m \<le> n \<longrightarrow> k (drop m s) = None" "lo \<le> m \<and> m \<le> n - 1"
        then show "k (drop m s) = None" by (meson diff_le_self le_trans)
      next
        fix m assume a: "\<forall>m. lo \<le> m \<and> m \<le> n - 1 \<longrightarrow> k (drop m s) = None" "lo \<le> m \<and> m \<le> n"
        show "k (drop m s) = None"
        proof (cases "m = n")
          case True with None show ?thesis by simp
        next
          case False with a(2) have "m \<le> n - 1" by arith
          with a show ?thesis by blast
        qed
      qed
      with "1.IH" [OF None False \<open>lo \<le> n - 1\<close>] step show ?thesis by simp
    qed
  qed
qed
lemma take_within_run:
  "m \<le> length (takeWhile ok s) \<Longrightarrow> list_all ok (take m s) \<and> length (take m s) = m"
proof -
  assume le: "m \<le> length (takeWhile ok s)"
  have "take m (takeWhile ok s) = take m (take (length (takeWhile ok s)) s)"
    using takeWhile_eq_take [of ok s] by simp
  also have "\<dots> = take m s" using le by (simp add: min_absorb1)
  finally have eq: "take m s = take m (takeWhile ok s)" by simp
  have "list_all ok (takeWhile ok s)" by (simp add: list_all_iff) (meson set_takeWhileD)
  then have "list_all ok (take m (takeWhile ok s))"
    by (auto simp: list_all_iff dest: in_set_takeD)
  with eq le show ?thesis by simp
qed

lemma run_covers_prefix:
  "list_all ok w \<Longrightarrow> length w \<le> length (takeWhile ok (w @ t))"
  by (induction w) auto

lemma groups_of_Cons:
  "groups_of (a # as) (w # ws) = (if is_capturing a then w # groups_of as ws else groups_of as ws)"
  by (simp add: groups_of_def)

lemma regex_match_sound:
  "regex_match p s = Some (caps, r) \<Longrightarrow>
     \<exists>ws. list_all2 fits p ws \<and> s = concat ws @ r \<and> caps = groups_of p ws"
proof (induction p arbitrary: s caps r)
  case Nil
  then show ?case by (simp add: groups_of_def)
next
  case (Cons a as)
  show ?case
  proof (cases a)
    case EndOfInput
    with Cons.prems have s: "s = []" and m: "regex_match as [] = Some (caps, r)"
      by (auto split: if_splits)
    from Cons.IH [OF m] obtain ws where
      "list_all2 fits as ws" "[] = concat ws @ r" "caps = groups_of as ws" by blast
    with s EndOfInput have
      "list_all2 fits (a # as) ([] # ws) \<and> s = concat ([] # ws) @ r \<and> caps = groups_of (a # as) ([] # ws)"
      by (simp add: groups_of_Cons)
    then show ?thesis by blast
  next
    case (Class ok lo hi cap)
    define run where "run = length (takeWhile ok s)"
    define top where "top = (case hi of None \<Rightarrow> length (takeWhile ok s)
                             | Some h \<Rightarrow> min h (length (takeWhile ok s)))"
    from Cons.prems Class have eq:
      "(if top < lo then None
        else case longest_first (regex_match as) s lo top of
               None \<Rightarrow> None
             | Some (taken, caps, rest) \<Rightarrow> Some (if cap then taken # caps else caps, rest)) =
       Some (caps, r)"
      by (simp add: Let_def top_def split: if_splits)
    then have ge: "lo \<le> top" by (auto split: if_splits)
    from eq ge obtain taken caps' where
      lf: "longest_first (regex_match as) s lo top = Some (taken, caps', r)" and
      caps: "caps = (if cap then taken # caps' else caps')"
      by (auto split: if_splits option.splits)
    from longest_first_Some [OF lf ge] obtain m where
      m: "lo \<le> m" "m \<le> top" "taken = take m s" "regex_match as (drop m s) = Some (caps', r)"
      by blast
    from Cons.IH [OF m(4)] obtain ws where
      ws: "list_all2 fits as ws" "drop m s = concat ws @ r" "caps' = groups_of as ws" by blast
    have "m \<le> run" using m(2) by (auto simp: top_def run_def split: option.splits)
    then have tk: "list_all ok (take m s)" "length (take m s) = m"
      using take_within_run [of m ok s] by (simp_all add: run_def)
    have "fits a (take m s)"
      using Class tk m(1,2) by (auto simp: top_def run_def split: option.splits)
    moreover have "s = concat (take m s # ws) @ r"
      using ws(2) by (metis append_take_drop_id concat.simps(2) append_assoc)
    ultimately have
      "list_all2 fits (a # as) (take m s # ws) \<and> s = concat (take m s # ws) @ r \<and>
       caps = groups_of (a # as) (take m s # ws)"
      using ws(1,3) caps m(3) Class by (simp add: groups_of_Cons)
    then show ?thesis by blast
  qed
qed

lemma regex_match_complete:
  "EndOfInput \<notin> set p \<Longrightarrow> list_all2 fits p ws \<Longrightarrow> regex_match p (concat ws @ r) \<noteq> None"
proof (induction p arbitrary: ws r)
  case Nil
  then show ?case by simp
next
  case (Cons a as)
  from Cons.prems obtain w ws' where ws: "ws = w # ws'" "fits a w" "list_all2 fits as ws'"
    by (auto simp: list_all2_Cons1)
  from Cons.prems obtain ok lo hi cap where a: "a = Class ok lo hi cap"
    by (cases a) auto
  define s where "s = concat ws @ r"
  define run where "run = length (takeWhile ok s)"
  define top where "top = (case hi of None \<Rightarrow> length (takeWhile ok s)
                           | Some h \<Rightarrow> min h (length (takeWhile ok s)))"
  have w: "list_all ok w" "lo \<le> length w" using ws(2) a by simp_all
  have "length w \<le> run"
    using run_covers_prefix [OF w(1), of "concat ws' @ r"] by (simp add: run_def s_def ws(1))
  then have wtop: "length w \<le> top"
    using ws(2) a by (auto simp: top_def run_def split: option.splits)
  have rest: "regex_match as (drop (length w) s) \<noteq> None"
    using Cons.IH [OF _ ws(3), of r] Cons.prems(1) by (simp add: s_def ws(1))
  have "longest_first (regex_match as) s lo top \<noteq> None"
    using longest_first_None [of lo top "regex_match as" s] w(2) wtop rest
    by (meson le_trans)
  moreover have "regex_match (a # as) s =
      (if top < lo then None
       else case longest_first (regex_match as) s lo top of
              None \<Rightarrow> None
            | Some (taken, caps, rest) \<Rightarrow> Some (if cap then taken # caps else caps, rest))"
    by (simp add: a Let_def top_def)
  ultimately have "regex_match (a # as) s \<noteq> None"
    using w(2) wtop by (auto split: option.splits)
  then show ?case by (simp add: s_def)
qed

lemma regex_search_Some:
  "regex_search p s = Some caps \<Longrightarrow>
     \<exists>pre suf r. s = pre @ suf \<and> regex_match p suf = Some (caps, r)"
proof (induction s)
  case Nil
  then show ?case by auto
next
  case (Cons c cs)
  show ?case
  proof (cases "regex_match p (c # cs)")
    case None
    with Cons.prems have "regex_search p cs = Some caps" by simp
    from Cons.IH [OF this] obtain pre suf r where
      "cs = pre @ suf" "regex_match p suf = Some (caps, r)" by blast
    then have "c # cs = (c # pre) @ suf \<and> regex_match p suf = Some (caps, r)" by simp
    then show ?thesis by blast
  next
    case (Some m)
    with Cons.prems have "regex_match p (c # cs) = Some (caps, snd m)" by (cases m) simp
    then have "c # cs = [] @ (c # cs) \<and> regex_match p (c # cs) = Some (caps, snd m)" by simp
    then show ?thesis by blast
  qed
qed

lemma regex_search_None:
  "regex_search p s = None \<Longrightarrow> s = pre @ suf \<Longrightarrow> regex_match p suf = None"
proof (induction s arbitrary: pre)
  case Nil
  then show ?case by simp
next
  case (Cons c cs)
  from Cons.prems(1) have here: "regex_match p (c # cs) = None" and rest: "regex_search p cs = None"
    by (auto split: option.splits)
  show ?case
  proof (cases pre)
    case Nil
    with Cons.prems(2) here show ?thesis by simp
  next
    case (Cons d pre')
    with Cons.prems(2) have "cs = pre' @ suf" by simp
    from Cons.IH [OF rest this] show ?thesis .
  qed
qed

lemma regex_search_groups:
  assumes "regex_search p s = Some caps"
  shows "\<exists>pre ws post. s = pre @ concat ws @ post \<and> list_all2 fits p ws \<and> caps = groups_of p ws"
proof -
  from regex_search_Some [OF assms] obtain pre suf r where
    t: "s = pre @ suf" and m: "regex_match p suf = Some (caps, r)" by blast
  from regex_match_sound [OF m] obtain ws where
    "list_all2 fits p ws" "suf = concat ws @ r" "caps = groups_of p ws" by blast
  with t have "s = pre @ concat ws @ r \<and> list_all2 fits p ws \<and> caps = groups_of p ws" by simp
  then show ?thesis by blast
qed

lemma regex_search_occurs:
  assumes "EndOfInput \<notin> set p"
  shows "regex_search p s \<noteq> None \<longleftrightarrow> occurs p s"
proof
  assume "regex_search p s \<noteq> None"
  then obtain caps where "regex_search p s = Some caps" by auto
  from regex_search_groups [OF this] show "occurs p s" unfolding occurs_def by blast
next
  assume "occurs p s"
  then obtain pre ws post where t: "s = pre @ concat ws @ post" and f: "list_all2 fits p ws"
    unfolding occurs_def by blast
  show "regex_search p s \<noteq> None"
  proof
    assume "regex_search p s = None"
    from regex_search_None [OF this t] regex_match_complete [OF assms f, of post]
    show False by simp
  qed
qed

lemma first_match_found:
  "i < length ps \<Longrightarrow> regex_search (ps ! i) s = Some g \<Longrightarrow>
   (\<forall>j<i. regex_search (ps ! j) s = None) \<Longrightarrow>
   first_match ps s = Some \<lparr>vi_volume = nth_opt g 0, vi_issue = nth_opt g 1\<rparr>"
proof (induction ps arbitrary: i)
  case Nil
  then show ?case by simp
next
  case (Cons p ps)
  show ?case
  proof (cases i)
    case 0
    with Cons.prems show ?thesis by simp
  next
    case (Suc k)
    have "\<forall>j<k. regex_search (ps ! j) s = None"
    proof (intro allI impI)
      fix j assume "j < k"
      then have "Suc j < i" using Suc by simp
      with Cons.prems(3) have "regex_search ((p # ps) ! Suc j) s = None" by blast
      then show "regex_search (ps ! j) s = None" by simp
    qed
    moreover have "k < length ps" "regex_search (ps ! k) s = Some g"
      using Cons.prems Suc by simp_all
    ultimately have "first_match ps s = Some \<lparr>vi_volume = nth_opt g 0, vi_issue = nth_opt g 1\<rparr>"
      using Cons.IH [of k] by blast
    moreover have "regex_search p s = None" using Cons.prems(3) Suc by auto
    ultimately show ?thesis by simp
  qed
qed

lemma first_match_none:
  "(\<forall>i<length ps. regex_search (ps ! i) s = None) \<Longrightarrow> first_match ps s = None"
proof (induction ps)
  case Nil
  then show ?case by simp
next
  case (Cons p ps)
  from Cons.prems have "regex_search p s = None" by auto
  moreover from Cons.prems have "\<forall>i<length ps. regex_search (ps ! i) s = None" by auto
  ultimately show ?case using Cons.IH by simp
qed

lemma run_is_all: "length (takeWhile P xs) = length xs \<longleftrightarrow> list_all P xs"
  by (induction xs) (auto simp: list_all_iff dest: le_trans [OF _ length_takeWhile_le])

lemma digits_only_test:
  "regex_match [Class is_digit 1 None False, EndOfInput] s \<noteq> None \<longleftrightarrow>
     s \<noteq> [] \<and> list_all is_digit s"
proof -
  define run where "run = length (takeWhile is_digit s)"
  have k: "regex_match [EndOfInput] u = None \<longleftrightarrow> u \<noteq> []" for u by simp
  have all: "list_all is_digit s \<longleftrightarrow> run = length s"
    unfolding run_def using run_is_all [of is_digit s] by simp
  have le: "run \<le> length s" unfolding run_def by (rule length_takeWhile_le)
  have m: "regex_match [Class is_digit 1 None False, EndOfInput] s \<noteq> None \<longleftrightarrow>
      1 \<le> run \<and> longest_first (regex_match [EndOfInput]) s 1 run \<noteq> None"
    by (auto simp add: Let_def run_def Suc_le_eq split: option.splits)
  show ?thesis
  proof (cases "1 \<le> run")
    case False
    then have "run = 0" by simp
    with all m le show ?thesis by (cases s) simp_all
  next
    case True
    have "longest_first (regex_match [EndOfInput]) s 1 run = None \<longleftrightarrow>
          (\<forall>m. 1 \<le> m \<and> m \<le> run \<longrightarrow> drop m s \<noteq> [])"
      unfolding longest_first_None [OF True] k ..
    also have "\<dots> \<longleftrightarrow> run \<noteq> length s"
    proof
      assume a: "\<forall>m. 1 \<le> m \<and> m \<le> run \<longrightarrow> drop m s \<noteq> []"
      from a True have "drop run s \<noteq> []" by blast
      then show "run \<noteq> length s" by auto
    next
      assume "run \<noteq> length s"
      with le have "run < length s" by simp
      then show "\<forall>m. 1 \<le> m \<and> m \<le> run \<longrightarrow> drop m s \<noteq> []" by simp
    qed
    finally have "longest_first (regex_match [EndOfInput]) s 1 run \<noteq> None \<longleftrightarrow> run = length s"
      by simp
    with m True all show ?thesis by (cases s) simp_all
  qed
qed
lemma patterns_length: "length patterns = 4"
  by (simp add: patterns_def)

lemma patterns_index: "i < length patterns \<Longrightarrow> i = 0 \<or> i = 1 \<or> i = 2 \<or> i = 3"
  by (simp add: patterns_length) arith

lemma patterns_plain: "i < length patterns \<Longrightarrow> EndOfInput \<notin> set (patterns ! i)"
  by (drule patterns_index)
     (auto simp: patterns_def digits_group_def spaces_def lit_def lit_i_def opt_lit_def
        any_dash_def)

lemma patterns_groups:
  assumes "i < length patterns" and "list_all2 fits (patterns ! i) ws"
  shows "\<exists>N M. groups_of (patterns ! i) ws = [N, M] \<and>
           N \<noteq> [] \<and> list_all is_digit N \<and> M \<noteq> [] \<and> list_all is_digit M"
proof -
  from patterns_index [OF assms(1)] consider "i = 0" | "i = 1" | "i = 2" | "i = 3" by blast
  then show ?thesis
  proof cases
    case 1
    with assms(2) show ?thesis
      by (auto simp: patterns_def list_all2_Cons1 groups_of_def digits_group_def spaces_def
          lit_def)
  next
    case 2
    with assms(2) show ?thesis
      by (auto simp: patterns_def list_all2_Cons1 groups_of_def digits_group_def spaces_def
          lit_i_def opt_lit_def)
  next
    case 3
    with assms(2) show ?thesis
      by (auto simp: patterns_def list_all2_Cons1 groups_of_def digits_group_def spaces_def
          lit_i_def opt_lit_def)
  next
    case 4
    with assms(2) show ?thesis
      by (auto simp: patterns_def list_all2_Cons1 groups_of_def digits_group_def spaces_def
          any_dash_def)
  qed
qed

lemma first_match_Some:
  "first_match ps s = Some v \<Longrightarrow>
     \<exists>i<length ps. \<exists>g. regex_search (ps ! i) s = Some g \<and>
        v = \<lparr>vi_volume = nth_opt g 0, vi_issue = nth_opt g 1\<rparr>"
proof (induction ps)
  case Nil
  then show ?case by simp
next
  case (Cons p ps)
  show ?case
  proof (cases "regex_search p s")
    case None
    with Cons.prems have "first_match ps s = Some v" by simp
    from Cons.IH [OF this] obtain i g where
      "i < length ps" "regex_search (ps ! i) s = Some g"
      "v = \<lparr>vi_volume = nth_opt g 0, vi_issue = nth_opt g 1\<rparr>" by blast
    then have "Suc i < length (p # ps) \<and> regex_search ((p # ps) ! Suc i) s = Some g \<and>
        v = \<lparr>vi_volume = nth_opt g 0, vi_issue = nth_opt g 1\<rparr>" by simp
    then show ?thesis by blast
  next
    case (Some g)
    with Cons.prems have "0 < length (p # ps) \<and> regex_search ((p # ps) ! 0) s = Some g \<and>
        v = \<lparr>vi_volume = nth_opt g 0, vi_issue = nth_opt g 1\<rparr>" by auto
    then show ?thesis by blast
  qed
qed

lemma first_match_patterns:
  assumes "first_match patterns s = Some v"
  shows "\<exists>N M. v = \<lparr>vi_volume = Some N, vi_issue = Some M\<rparr> \<and>
           N \<noteq> [] \<and> list_all is_digit N \<and> M \<noteq> [] \<and> list_all is_digit M"
proof -
  from first_match_Some [OF assms] obtain i g where
    i: "i < length patterns" and g: "regex_search (patterns ! i) s = Some g" and
    v: "v = \<lparr>vi_volume = nth_opt g 0, vi_issue = nth_opt g 1\<rparr>" by blast
  from regex_search_groups [OF g] obtain ws where
    "list_all2 fits (patterns ! i) ws" "g = groups_of (patterns ! i) ws" by blast
  with patterns_groups [OF i] obtain N M where
    "g = [N, M]" "N \<noteq> []" "list_all is_digit N" "M \<noteq> []" "list_all is_digit M" by metis
  with v show ?thesis by (simp add: nth_opt_def)
qed

text \<open>
  The atoms of the four patterns accept the pieces that the specification names, and the
  pattern at each position is the form of that position.
\<close>

lemma is_digit_range: "is_digit = (\<lambda>c. 48 \<le> c \<and> c \<le> 57)"
  by (rule ext) (simp add: is_digit_def)

lemma number_digits: "number w \<longleftrightarrow> w \<noteq> [] \<and> list_all is_digit w"
  by (simp add: number_def is_digit_range)

lemma fits_lit: "fits (lit c) w \<longleftrightarrow> w = [c]"
  by (cases w; cases "tl w") (auto simp: lit_def)

lemma fits_lit_i:
  "fits (lit_i 118) w \<longleftrightarrow> letter ''v'' ''V'' w"
  "fits (lit_i 111) w \<longleftrightarrow> letter ''o'' ''O'' w"
  "fits (lit_i 108) w \<longleftrightarrow> letter ''l'' ''L'' w"
  "fits (lit_i 110) w \<longleftrightarrow> letter ''n'' ''N'' w"
  by (cases w; cases "tl w"; auto simp: lit_i_def letter_def str_def)+

lemma fits_opt_lit: "fits (opt_lit 46) w \<longleftrightarrow> dot w"
  by (cases w; cases "tl w") (auto simp: opt_lit_def dot_def str_def)

lemma fits_spaces: "fits spaces w \<longleftrightarrow> blank w"
  by (simp add: spaces_def blank_def)

lemma fits_digits_group: "fits digits_group w \<longleftrightarrow> number w"
  by (cases w) (auto simp: digits_group_def number_digits)

lemma fits_any_dash: "fits any_dash w \<longleftrightarrow> dash w"
  by (cases w; cases "tl w") (auto simp: any_dash_def dash_def str_def)

lemma capturing_atoms:
  "is_capturing digits_group" "\<not> is_capturing spaces" "\<not> is_capturing (lit c)"
  "\<not> is_capturing (lit_i c)" "\<not> is_capturing (opt_lit c)" "\<not> is_capturing any_dash"
  by (simp_all add: digits_group_def spaces_def lit_def lit_i_def opt_lit_def any_dash_def)

lemmas fits_atoms = fits_lit fits_lit_i fits_opt_lit fits_spaces fits_digits_group fits_any_dash

lemma form_0:
  "form 0 ws N M \<longleftrightarrow> list_all2 fits (patterns ! 0) ws \<and> groups_of (patterns ! 0) ws = [N, M]"
  unfolding form_def patterns_def
  by (auto simp add: list_all2_Cons1 fits_atoms groups_of_Cons capturing_atoms groups_of_def str_def)

lemma form_1:
  "form 1 ws N M \<longleftrightarrow> list_all2 fits (patterns ! 1) ws \<and> groups_of (patterns ! 1) ws = [N, M]"
  unfolding form_def patterns_def
  by (auto simp add: list_all2_Cons1 fits_atoms groups_of_Cons capturing_atoms groups_of_def)

lemma form_2:
  "form 2 ws N M \<longleftrightarrow> list_all2 fits (patterns ! 2) ws \<and> groups_of (patterns ! 2) ws = [N, M]"
  unfolding form_def patterns_def
  by (auto simp add: list_all2_Cons1 fits_atoms groups_of_Cons capturing_atoms groups_of_def)

lemma form_3:
  "form 3 ws N M \<longleftrightarrow> list_all2 fits (patterns ! 3) ws \<and> groups_of (patterns ! 3) ws = [N, M]"
  unfolding form_def patterns_def
  by (auto simp add: list_all2_Cons1 fits_atoms groups_of_Cons capturing_atoms groups_of_def)
text \<open>
  The matcher returns the greediest instance at the start of its input, and the search
  returns the instance at the first start that has one. Two piece lists that are both the
  leftmost and greediest instance are the same.
\<close>

lemma longest_first_greatest:
  "longest_first k s lo n = Some (t, r) \<Longrightarrow> lo \<le> n \<Longrightarrow>
     \<exists>m. lo \<le> m \<and> m \<le> n \<and> t = take m s \<and> k (drop m s) = Some r \<and>
         (\<forall>j. m < j \<and> j \<le> n \<longrightarrow> k (drop j s) = None)"
proof (induction k s lo n rule: longest_first.induct)
  case (1 k s lo n)
  show ?case
  proof (cases "k (drop n s)")
    case (Some r')
    with "1.prems" have "lo \<le> n \<and> n \<le> n \<and> t = take n s \<and> k (drop n s) = Some r \<and>
         (\<forall>j. n < j \<and> j \<le> n \<longrightarrow> k (drop j s) = None)"
      by (auto simp: longest_first.simps [of k s lo n])
    then show ?thesis by blast
  next
    case None
    with "1.prems" have less: "\<not> n \<le> lo" and rec: "longest_first k s lo (n - 1) = Some (t, r)"
      by (auto simp: longest_first.simps [of k s lo n] split: if_splits)
    from less "1.prems" have "lo \<le> n - 1" by simp
    from "1.IH" [OF None less rec this] obtain m where
      m: "lo \<le> m" "m \<le> n - 1" "t = take m s" "k (drop m s) = Some r"
         "\<forall>j. m < j \<and> j \<le> n - 1 \<longrightarrow> k (drop j s) = None" by blast
    have "\<forall>j. m < j \<and> j \<le> n \<longrightarrow> k (drop j s) = None"
    proof (intro allI impI)
      fix j assume j: "m < j \<and> j \<le> n"
      show "k (drop j s) = None"
      proof (cases "j = n")
        case True with None show ?thesis by simp
      next
        case False
        with j have "m < j \<and> j \<le> n - 1" by arith
        with m(5) show ?thesis by blast
      qed
    qed
    moreover have "m \<le> n" using m(2) by arith
    ultimately show ?thesis using m(1,3,4) by blast
  qed
qed

lemma regex_match_greedy:
  "EndOfInput \<notin> set p \<Longrightarrow> regex_match p s = Some (caps, r) \<Longrightarrow>
     \<exists>ws. list_all2 fits p ws \<and> s = concat ws @ r \<and> caps = groups_of p ws \<and>
          (\<forall>ws' r'. list_all2 fits p ws' \<and> s = concat ws' @ r' \<longrightarrow>
              greedier (map length ws) (map length ws'))"
proof (induction p arbitrary: s caps r)
  case Nil
  then show ?case by (simp add: groups_of_def)
next
  case (Cons a as)
  from Cons.prems(1) obtain ok lo hi cap where Class: "a = Class ok lo hi cap"
    by (cases a) auto
  from Cons.prems(1) have plain: "EndOfInput \<notin> set as" by simp
  define run where "run = length (takeWhile ok s)"
  define top where "top = (case hi of None \<Rightarrow> length (takeWhile ok s)
                           | Some h \<Rightarrow> min h (length (takeWhile ok s)))"
  from Cons.prems(2) Class have eq:
    "(if top < lo then None
      else case longest_first (regex_match as) s lo top of
             None \<Rightarrow> None
           | Some (taken, caps, rest) \<Rightarrow> Some (if cap then taken # caps else caps, rest)) =
     Some (caps, r)"
    by (simp add: Let_def top_def split: if_splits)
  then have ge: "lo \<le> top" by (auto split: if_splits)
  from eq ge obtain taken caps' where
    lf: "longest_first (regex_match as) s lo top = Some (taken, caps', r)" and
    caps: "caps = (if cap then taken # caps' else caps')"
    by (auto split: if_splits option.splits)
  from longest_first_greatest [OF lf ge] obtain m where
    m: "lo \<le> m" "m \<le> top" "taken = take m s" "regex_match as (drop m s) = Some (caps', r)"
       "\<forall>j. m < j \<and> j \<le> top \<longrightarrow> regex_match as (drop j s) = None"
    by blast
  from Cons.IH [OF plain m(4)] obtain ws where
    ws: "list_all2 fits as ws" "drop m s = concat ws @ r" "caps' = groups_of as ws"
        "\<forall>ws' r'. list_all2 fits as ws' \<and> drop m s = concat ws' @ r' \<longrightarrow>
              greedier (map length ws) (map length ws')" by blast
  have "m \<le> run" using m(2) by (auto simp: top_def run_def split: option.splits)
  then have tk: "list_all ok (take m s)" "length (take m s) = m"
    using take_within_run [of m ok s] by (simp_all add: run_def)
  have fit: "fits a (take m s)"
    using Class tk m(1,2) by (auto simp: top_def run_def split: option.splits)
  have cut: "s = concat (take m s # ws) @ r"
    using ws(2) by (metis append_take_drop_id concat.simps(2) append_assoc)
  have best: "greedier (map length (take m s # ws)) (map length vs)"
    if vs: "list_all2 fits (a # as) vs" "s = concat vs @ r'" for vs r'
  proof -
    from vs(1) obtain w ws' where v: "vs = w # ws'" "fits a w" "list_all2 fits as ws'"
      by (auto simp: list_all2_Cons1)
    have w: "list_all ok w" "lo \<le> length w" using v(2) Class by simp_all
    have s': "s = w @ concat ws' @ r'" using vs(2) v(1) by simp
    have "length w \<le> run"
      using run_covers_prefix [OF w(1), of "concat ws' @ r'"] by (simp add: run_def s')
    then have wtop: "length w \<le> top"
      using v(2) Class by (auto simp: top_def run_def split: option.splits)
    have d: "drop (length w) s = concat ws' @ r'" by (simp add: s')
    have rest: "regex_match as (drop (length w) s) \<noteq> None"
      unfolding d by (rule regex_match_complete [OF plain v(3)])
    have le: "length w \<le> m"
    proof (rule ccontr)
      assume "\<not> length w \<le> m"
      with wtop m(5) have "regex_match as (drop (length w) s) = None" by simp
      with rest show False by simp
    qed
    show ?thesis
    proof (cases "length w = m")
      case True
      with d ws(4) v(3) have "greedier (map length ws) (map length ws')" by blast
      with True tk(2) v(1) show ?thesis by simp
    next
      case False
      with le tk(2) v(1) show ?thesis by simp
    qed
  qed
  have "list_all2 fits (a # as) (take m s # ws) \<and> s = concat (take m s # ws) @ r \<and>
       caps = groups_of (a # as) (take m s # ws) \<and>
       (\<forall>ws' r'. list_all2 fits (a # as) ws' \<and> s = concat ws' @ r' \<longrightarrow>
              greedier (map length (take m s # ws)) (map length ws'))"
    using fit cut ws(1,3) caps m(3) Class best by (simp add: groups_of_Cons)
  then show ?case by blast
qed

lemma regex_search_first_start:
  "regex_search p s = Some caps \<Longrightarrow>
     \<exists>pre suf r. s = pre @ suf \<and> regex_match p suf = Some (caps, r) \<and>
        (\<forall>pre' suf'. s = pre' @ suf' \<and> length pre' < length pre \<longrightarrow> regex_match p suf' = None)"
proof (induction s)
  case Nil
  then obtain x where x: "regex_match p [] = Some x" "fst x = caps" by auto
  then have 1: "regex_match p [] = Some (caps, snd x)" by (cases x) simp
  have 2: "\<forall>pre' suf'. ([]::jstring) = pre' @ suf' \<and> length pre' < length ([]::jstring) \<longrightarrow>
            regex_match p suf' = None" by simp
  have 3: "([]::jstring) = [] @ []" by simp
  from 1 2 3 show ?case by (intro exI conjI)
next
  case (Cons c cs)
  show ?case
  proof (cases "regex_match p (c # cs)")
    case None
    with Cons.prems have "regex_search p cs = Some caps" by simp
    from Cons.IH [OF this] obtain pre suf r where
      p: "cs = pre @ suf" "regex_match p suf = Some (caps, r)"
         "\<forall>pre' suf'. cs = pre' @ suf' \<and> length pre' < length pre \<longrightarrow> regex_match p suf' = None"
      by blast
    have 2: "\<forall>pre' suf'. c # cs = pre' @ suf' \<and> length pre' < length (c # pre) \<longrightarrow>
            regex_match p suf' = None"
    proof (intro allI impI)
      fix pre' suf' assume h: "c # cs = pre' @ suf' \<and> length pre' < length (c # pre)"
      show "regex_match p suf' = None"
      proof (cases pre')
        case Nil
        with h have "suf' = c # cs" by simp
        with None show ?thesis by simp
      next
        case (Cons d pre'')
        with h have "cs = pre'' @ suf' \<and> length pre'' < length pre" by simp
        with p(3) show ?thesis by blast
      qed
    qed
    have 3: "c # cs = (c # pre) @ suf" using p(1) by simp
    from 3 p(2) 2 show ?thesis by (intro exI conjI)
  next
    case (Some m)
    with Cons.prems have 1: "regex_match p (c # cs) = Some (caps, snd m)" by (cases m) simp
    have 2: "\<forall>pre' suf'. c # cs = pre' @ suf' \<and> length pre' < length ([]::jstring) \<longrightarrow>
            regex_match p suf' = None" by simp
    have 3: "c # cs = [] @ (c # cs)" by simp
    from 3 1 2 show ?thesis by (intro exI conjI)
  qed
qed

lemma regex_search_leftmost_greedy:
  assumes "EndOfInput \<notin> set p" and "regex_search p s = Some caps"
  shows "\<exists>pre ws post. leftmost_greedy (list_all2 fits p) s pre ws post \<and> caps = groups_of p ws"
proof -
  from regex_search_first_start [OF assms(2)] obtain pre suf r where
    t: "s = pre @ suf" and m: "regex_match p suf = Some (caps, r)" and
    first: "\<forall>pre' suf'. s = pre' @ suf' \<and> length pre' < length pre \<longrightarrow> regex_match p suf' = None"
    by blast
  from regex_match_greedy [OF assms(1) m] obtain ws where
    ws: "list_all2 fits p ws" "suf = concat ws @ r" "caps = groups_of p ws"
        "\<forall>ws' r'. list_all2 fits p ws' \<and> suf = concat ws' @ r' \<longrightarrow>
              greedier (map length ws) (map length ws')" by blast
  have "length pre < length pre' \<or>
        (length pre' = length pre \<and> greedier (map length ws) (map length ws'))"
    if o: "s = pre' @ concat ws' @ post'" "list_all2 fits p ws'" for pre' ws' post'
  proof -
    have some: "regex_match p (concat ws' @ post') \<noteq> None"
      by (rule regex_match_complete [OF assms(1) o(2)])
    have ge: "length pre \<le> length pre'"
    proof (rule ccontr)
      assume "\<not> length pre \<le> length pre'"
      then have "s = pre' @ (concat ws' @ post') \<and> length pre' < length pre" using o(1) by simp
      with first have "regex_match p (concat ws' @ post') = None" by blast
      with some show False by simp
    qed
    show ?thesis
    proof (cases "length pre' = length pre")
      case True
      with t o(1) have "pre' @ (concat ws' @ post') = pre @ suf" "length pre' = length pre" by simp_all
      then have "pre' = pre \<and> suf = concat ws' @ post'" by (simp add: append_eq_append_conv)
      then have "pre' = pre" "suf = concat ws' @ post'" by simp_all
      with ws(4) o(2) True show ?thesis by blast
    next
      case False
      with ge show ?thesis by simp
    qed
  qed
  with t ws(1,2) have "leftmost_greedy (list_all2 fits p) s pre ws r"
    unfolding leftmost_greedy_def by simp
  with ws(3) show ?thesis by blast
qed

lemma greedier_antisym: "greedier xs ys \<Longrightarrow> greedier ys xs \<Longrightarrow> xs = ys"
  by (induction xs ys rule: greedier.induct) auto

lemma same_cuts:
  "map length ws = map length ws' \<Longrightarrow> concat ws @ post = concat ws' @ post' \<Longrightarrow>
     ws = ws' \<and> post = post'"
proof (induction ws arbitrary: ws')
  case Nil
  then show ?case by simp
next
  case (Cons w ws)
  then obtain w' vs where v: "ws' = w' # vs" "length w = length w'" "map length ws = map length vs"
    by (cases ws') auto
  with Cons.prems(2) have "w = w'" "concat ws @ post = concat vs @ post'" by simp_all
  with Cons.IH [OF v(3)] v(1) show ?case by simp
qed

lemma leftmost_greedy_unique:
  assumes "leftmost_greedy Q s pre ws post" and "leftmost_greedy Q s pre' ws' post'"
  shows "pre = pre' \<and> ws = ws' \<and> post = post'"
proof -
  from assms have a: "s = pre @ concat ws @ post" "Q ws" "s = pre' @ concat ws' @ post'" "Q ws'"
    unfolding leftmost_greedy_def by simp_all
  from assms(1) a(3,4) have 1: "length pre < length pre' \<or>
        (length pre' = length pre \<and> greedier (map length ws) (map length ws'))"
    unfolding leftmost_greedy_def by blast
  from assms(2) a(1,2) have 2: "length pre' < length pre \<or>
        (length pre = length pre' \<and> greedier (map length ws') (map length ws))"
    unfolding leftmost_greedy_def by blast
  from 1 2 have len: "length pre = length pre'" and
    g: "greedier (map length ws) (map length ws')" "greedier (map length ws') (map length ws)"
    by auto
  from a(1,3) have "pre @ (concat ws @ post) = pre' @ (concat ws' @ post')" by simp
  with len have "pre = pre' \<and> concat ws @ post = concat ws' @ post'"
    by (simp add: append_eq_append_conv)
  then have p: "pre = pre'" "concat ws @ post = concat ws' @ post'" by simp_all
  from same_cuts [OF greedier_antisym [OF g] p(2)] p(1) show ?thesis by simp
qed
text \<open>The loop over the patterns returns the numbers of that instance of the first form found.\<close>

lemma four_cases: "i < 4 \<Longrightarrow> i = 0 \<or> i = Suc 0 \<or> i = 2 \<or> i = (3::nat)"
  by arith

lemma form_patterns:
  assumes "i < 4"
  shows "form i ws N M \<longleftrightarrow>
           list_all2 fits (patterns ! i) ws \<and> groups_of (patterns ! i) ws = [N, M]"
  using four_cases [OF assms] form_0 [of ws N M] form_1 [of ws N M] form_2 [of ws N M]
    form_3 [of ws N M]
  by (elim disjE) simp_all

lemma has_form_patterns:
  assumes "i < 4"
  shows "has_form i = list_all2 fits (patterns ! i)"
proof (rule ext)
  fix ws
  from assms have i: "i < length patterns" by (simp add: patterns_length)
  show "has_form i ws = list_all2 fits (patterns ! i) ws"
    unfolding has_form_def form_patterns [OF assms]
    using patterns_groups [OF i, of ws] by blast
qed

lemma found_occurs: "i < 4 \<Longrightarrow> found i s \<longleftrightarrow> occurs (patterns ! i) s"
  by (simp add: found_def occurs_def has_form_patterns)

lemma found_search: "i < 4 \<Longrightarrow> found i s \<longleftrightarrow> regex_search (patterns ! i) s \<noteq> None"
  using regex_search_occurs [OF patterns_plain, of i s]
  by (simp add: found_occurs patterns_length)

lemma first_match_leftmost_greedy:
  assumes "first_found s i"
  shows "\<exists>pre ws post N M. leftmost_greedy (has_form i) s pre ws post \<and> form i ws N M \<and>
           first_match patterns s = Some \<lparr>vi_volume = Some N, vi_issue = Some M\<rparr>"
proof -
  from assms have i4: "i < 4" and occ: "found i s" and before: "\<forall>j<i. \<not> found j s"
    by (simp_all add: first_found_def)
  from i4 have i: "i < length patterns" by (simp add: patterns_length)
  from occ found_search [OF i4, of s] obtain g where
    g: "regex_search (patterns ! i) s = Some g" by auto
  have none: "\<forall>j<i. regex_search (patterns ! j) s = None"
  proof (intro allI impI)
    fix j assume j: "j < i"
    with i4 have "j < 4" by simp
    from found_search [OF this, of s] before j
    show "regex_search (patterns ! j) s = None" by blast
  qed
  from regex_search_leftmost_greedy [OF patterns_plain [OF i] g] obtain pre ws post where
    ws: "leftmost_greedy (list_all2 fits (patterns ! i)) s pre ws post"
        "g = groups_of (patterns ! i) ws" by blast
  from ws(1) have fit: "list_all2 fits (patterns ! i) ws" by (simp add: leftmost_greedy_def)
  from patterns_groups [OF i fit] obtain N M where nm: "groups_of (patterns ! i) ws = [N, M]"
    by blast
  from first_match_found [OF i g none] ws(2) nm
  have "first_match patterns s = Some \<lparr>vi_volume = Some N, vi_issue = Some M\<rparr>"
    by (simp add: nth_opt_def)
  moreover have "form i ws N M" using fit nm by (simp add: form_patterns [OF i4])
  moreover have "leftmost_greedy (has_form i) s pre ws post"
    using ws(1) by (simp add: has_form_patterns [OF i4])
  ultimately show ?thesis by blast
qed

lemma form_numbers:
  assumes "i < 4" and "form i ws N M" and "form i ws N' M'"
  shows "N' = N \<and> M' = M"
  using assms(2,3) by (simp add: form_patterns [OF assms(1)])

lemma first_match_not_found:
  assumes "\<forall>j<4. \<not> found j s"
  shows "first_match patterns s = None"
proof (rule first_match_none, intro allI impI)
  fix i assume "i < length patterns"
  then have "i < 4" by (simp add: patterns_length)
  with found_search [OF this, of s] assms
  show "regex_search (patterns ! i) s = None" by blast
qed

text \<open>Every text has a first form that is found in it, or none of the four.\<close>

lemma first_found_or_none: "(\<exists>i. first_found s i) \<or> (\<forall>j<4. \<not> found j s)"
proof (cases "\<exists>j. j < 4 \<and> found j s")
  case True
  then obtain j where j: "j < 4 \<and> found j s" by blast
  define i where "i = (LEAST j. j < 4 \<and> found j s)"
  have i: "i < 4 \<and> found i s" unfolding i_def using j by (rule LeastI)
  have "\<not> found k s" if "k < i" for k
  proof
    assume "found k s"
    with that i have "k < 4 \<and> found k s" by simp
    then have "i \<le> k" unfolding i_def by (rule Least_le)
    with that show False by simp
  qed
  with i have "first_found s i" by (simp add: first_found_def)
  then show ?thesis by blast
next
  case False
  then show ?thesis by blast
qed

text \<open>
  In \<open>12(3) 45(6)\<close> the second instance of the first pattern is an instance, but not the
  one that is returned.
\<close>

lemma later_instance_not_chosen:
  "str ''12(3) 45(6)'' =
     str ''12(3) '' @ concat [str ''45'', [], str ''('', [], str ''6'', [], str '')''] @ [] \<and>
   form 0 [str ''45'', [], str ''('', [], str ''6'', [], str '')''] (str ''45'') (str ''6'') \<and>
   \<not> leftmost_greedy (has_form 0) (str ''12(3) 45(6)'')
       (str ''12(3) '') [str ''45'', [], str ''('', [], str ''6'', [], str '')''] []"
proof -
  have f: "form 0 [str ''12'', [], str ''('', [], str ''3'', [], str '')''] (str ''12'') (str ''3'')"
    "form 0 [str ''45'', [], str ''('', [], str ''6'', [], str '')''] (str ''45'') (str ''6'')"
    by (simp_all add: form_def number_def blank_def str_def)
  then have h: "has_form 0 [str ''12'', [], str ''('', [], str ''3'', [], str '')'']"
    unfolding has_form_def by blast
  have c: "str ''12(3) 45(6)'' =
      [] @ concat [str ''12'', [], str ''('', [], str ''3'', [], str '')''] @ str '' 45(6)''"
    by (simp add: str_def)
  have "\<not> leftmost_greedy (has_form 0) (str ''12(3) 45(6)'')
       (str ''12(3) '') [str ''45'', [], str ''('', [], str ''6'', [], str '')''] []"
  proof
    assume "leftmost_greedy (has_form 0) (str ''12(3) 45(6)'')
       (str ''12(3) '') [str ''45'', [], str ''('', [], str ''6'', [], str '')''] []"
    with c h have "length (str ''12(3) '') < length ([]::jstring) \<or>
        length ([]::jstring) = length (str ''12(3) '') \<and>
        greedier (map length [str ''45'', [], str ''('', [], str ''6'', [], str '')''])
          (map length [str ''12'', [], str ''('', [], str ''3'', [], str '')''])"
      unfolding leftmost_greedy_def by blast
    then show False by (simp add: str_def)
  qed
  with f(2) show ?thesis by (simp add: str_def)
qed

section \<open>Properties of \<open>mapSourceType\<close>\<close>

lemmas eval_type =
  mapSourceType_def mapping_def object_prototype_def toLowerCase_def lower_unit_def trim_def
  is_space_def str_def

lemma mapSourceType_examples:
  "mapSourceType (Text (str ''Journal Article'')) = TypeName (str ''article-journal'')"
  "mapSourceType (Text (str '''')) = TypeName (str ''article-journal'')"
  "mapSourceType Absent = TypeName (str ''article-journal'')"
  "mapSourceType NotAString = TypeName (str ''article-journal'')"
  "mapSourceType (Text (str ''zzz'')) = TypeName (str ''webpage'')"
  "mapSourceType (Text (str ''  Book Chapter '')) = TypeName (str ''chapter'')"
  by (simp_all add: eval_type)

lemma mapping_values_nonempty: "map_of mapping k = Some v \<Longrightarrow> v \<noteq> []"
  by (auto simp add: mapping_def str_def split: if_splits)

lemma mapSourceType_lookup:
  "s \<noteq> [] \<Longrightarrow>
     mapSourceType (Text s) =
       (case map_of mapping (trim (toLowerCase s)) of
          Some v \<Rightarrow> TypeName v
        | None \<Rightarrow> if trim (toLowerCase s) \<in> set object_prototype
                  then Inherited (trim (toLowerCase s)) else TypeName (str ''webpage''))"
  by (auto simp add: mapSourceType_def Let_def dest: mapping_values_nonempty split: option.splits)

lemma lower_case_has_no_capital: "c \<in> set (trim (toLowerCase s)) \<Longrightarrow> \<not> (65 \<le> c \<and> c \<le> 90)"
proof -
  assume "c \<in> set (trim (toLowerCase s))"
  then have "c \<in> set (toLowerCase s)"
    unfolding trim_def by (metis set_rev set_dropWhileD)
  then show ?thesis by (auto simp add: toLowerCase_def lower_unit_def)
qed

lemma inherited_keys_reached:
  assumes "trim (toLowerCase s) \<in> set object_prototype"
  shows "trim (toLowerCase s) = str ''constructor'' \<or> trim (toLowerCase s) = str ''__proto__''"
proof -
  define t where "t = trim (toLowerCase s)"
  have no: "\<And>c. c \<in> set t \<Longrightarrow> \<not> (65 \<le> c \<and> c \<le> 90)"
    unfolding t_def by (rule lower_case_has_no_capital)
  from assms have "t \<in> set object_prototype" by (simp add: t_def)
  then consider "t = str ''constructor''" | "t = str ''__proto__''"
    | "71 \<in> set t" | "83 \<in> set t" | "79 \<in> set t" | "80 \<in> set t" | "69 \<in> set t" | "76 \<in> set t"
    by (auto simp add: object_prototype_def str_def)
  then show ?thesis
  proof cases
    case 1 then show ?thesis by (simp add: t_def)
  next
    case 2 then show ?thesis by (simp add: t_def)
  qed (use no in force)+
qed

lemma mapSourceType_table:
  assumes "s \<noteq> []"
    and "trim (toLowerCase s) \<noteq> str ''constructor''"
    and "trim (toLowerCase s) \<noteq> str ''__proto__''"
  shows "mapSourceType (Text s) =
           (case map_of mapping (trim (toLowerCase s)) of
              Some v \<Rightarrow> TypeName v
            | None \<Rightarrow> TypeName (str ''webpage''))"
  using assms inherited_keys_reached [of s]
  by (auto simp add: mapSourceType_lookup split: option.splits)

text \<open>
  Claim C5 says that a non-empty value which is not in the synonym table maps to
  \<open>webpage\<close>. The value \<open>constructor\<close> is not a key of the table, yet \<open>mapping[type]\<close>
  finds the property of that name which the object literal inherits, a truthy function, and
  \<open>mapSourceType\<close> returns it in place of \<open>webpage\<close>. For every other value (but
  \<open>__proto__\<close>) the claim holds: \<open>mapSourceType_table\<close> and \<open>mapSourceType_examples\<close>.
\<close>

theorem mapSourceType_inherited_property:
  "mapSourceType (Text (str ''constructor'')) = Inherited (str ''constructor'') \<and>
   map_of mapping (str ''constructor'') = None \<and>
   mapSourceType (Text (str ''constructor'')) \<noteq> TypeName (str ''webpage'')"
  by (simp add: eval_type)

section \<open>Properties of \<open>parseVolumeIssue\<close>\<close>

text \<open>The definitions that evaluate a pattern on a given text.\<close>

lemmas eval_regex =
  patterns_def digits_group_def spaces_def lit_def lit_i_def opt_lit_def any_dash_def is_digit_def
  is_space_def str_def trim_def nth_opt_def longest_first.simps

text \<open>
  Claim C10. The result of \<open>parseVolumeIssue\<close> never has an issue without a volume:
  whenever the issue is not null the volume is not null either, and the result has one of
  three shapes: volume and issue, volume only, or neither.
\<close>

theorem parseVolumeIssue_issue_needs_volume:
  "(vi_issue (parseVolumeIssue cell) \<noteq> None \<longrightarrow> vi_volume (parseVolumeIssue cell) \<noteq> None) \<and>
   ((\<exists>N M. parseVolumeIssue cell = \<lparr>vi_volume = Some N, vi_issue = Some M\<rparr>) \<or>
    (\<exists>V. parseVolumeIssue cell = \<lparr>vi_volume = Some V, vi_issue = None\<rparr>) \<or>
    parseVolumeIssue cell = \<lparr>vi_volume = None, vi_issue = None\<rparr>)"
proof (cases cell)
  case (Text c)
  show ?thesis
  proof (cases "c = []")
    case True
    with Text show ?thesis by (simp add: parseVolumeIssue_def)
  next
    case False
    show ?thesis
    proof (cases "first_match patterns (trim c)")
      case None
      with Text False show ?thesis by (simp add: parseVolumeIssue_def Let_def)
    next
      case (Some v)
      from first_match_patterns [OF Some] obtain N M where
        "v = \<lparr>vi_volume = Some N, vi_issue = Some M\<rparr>" by blast
      with Text False Some show ?thesis by (simp add: parseVolumeIssue_def Let_def)
    qed
  qed
qed (simp_all add: parseVolumeIssue_def)

theorem parseVolumeIssue_issue_needs_volume_witness:
  "vi_issue (parseVolumeIssue (Text (str ''12(3)''))) = Some (str ''3'') \<and>
   vi_volume (parseVolumeIssue (Text (str ''12(3)''))) \<noteq> None"
proof -
  have "vi_issue (parseVolumeIssue (Text (str ''12(3)''))) = Some (str ''3'')"
    by (simp add: parseVolumeIssue_def eval_regex)
  with parseVolumeIssue_issue_needs_volume [of "Text (str ''12(3)'')"] show ?thesis by simp
qed
text \<open>
  One text or more for every pattern: blanks inside the parentheses, capital letters and a
  missing dot, each of the three dashes, two instances of one pattern (the first is taken,
  and its last number as long as it can be), and instances of two patterns (the pattern
  that comes first in the array wins, wherever its instance is).
\<close>

lemma parseVolumeIssue_by_pattern:
  "parseVolumeIssue (Text (str ''12 ( 3 )'')) = \<lparr>vi_volume = Some (str ''12''), vi_issue = Some (str ''3'')\<rparr>"
  "parseVolumeIssue (Text (str ''VOL.5 No 2'')) = \<lparr>vi_volume = Some (str ''5''), vi_issue = Some (str ''2'')\<rparr>"
  "parseVolumeIssue (Text (str ''v. 12 n. 3'')) = \<lparr>vi_volume = Some (str ''12''), vi_issue = Some (str ''3'')\<rparr>"
  "parseVolumeIssue (Text (str ''V12N3'')) = \<lparr>vi_volume = Some (str ''12''), vi_issue = Some (str ''3'')\<rparr>"
  "parseVolumeIssue (Text (str ''12-3'')) = \<lparr>vi_volume = Some (str ''12''), vi_issue = Some (str ''3'')\<rparr>"
  "parseVolumeIssue (Text (str ''12'' @ [8211] @ str ''3'')) = \<lparr>vi_volume = Some (str ''12''), vi_issue = Some (str ''3'')\<rparr>"
  "parseVolumeIssue (Text (str ''12 '' @ [8212] @ str '' 3'')) = \<lparr>vi_volume = Some (str ''12''), vi_issue = Some (str ''3'')\<rparr>"
  "parseVolumeIssue (Text (str ''12(3) 45(6)'')) = \<lparr>vi_volume = Some (str ''12''), vi_issue = Some (str ''3'')\<rparr>"
  "parseVolumeIssue (Text (str ''1-2 3(4)'')) = \<lparr>vi_volume = Some (str ''3''), vi_issue = Some (str ''4'')\<rparr>"
  "parseVolumeIssue (Text (str ''v1n2 vol3no4'')) = \<lparr>vi_volume = Some (str ''3''), vi_issue = Some (str ''4'')\<rparr>"
  "parseVolumeIssue (Text (str ''1-2 v3n4'')) = \<lparr>vi_volume = Some (str ''3''), vi_issue = Some (str ''4'')\<rparr>"
  "parseVolumeIssue (Text (str ''12-345'')) = \<lparr>vi_volume = Some (str ''12''), vi_issue = Some (str ''345'')\<rparr>"
  by (simp_all add: parseVolumeIssue_def eval_regex)

text \<open>
  Claim C8. \<open>parseVolumeIssue\<close> tries the four patterns \<open>N(M)\<close>, \<open>vol. N no. M\<close>,
  \<open>v. N n. M\<close> (both in small or capital letters) and \<open>N-M\<close> (hyphen, en dash or em dash)
  in that order on the trimmed text. When the pattern at position \<open>i\<close> is the first that is
  found in the text, the result is the volume \<open>N\<close> and the issue \<open>M\<close> of the instance of that
  pattern which starts first in the text and is the greediest of those starting there; no
  other numbers are returned. When no pattern is found, the result is the trimmed text as
  volume with a null issue if the text is a number, and null for both otherwise. An empty,
  absent or non-string cell gives null for both. The four examples of the specification
  evaluate as it says, and so do texts in capital letters, with each dash, with two
  instances of a pattern, and with instances of two patterns.
\<close>

theorem parseVolumeIssue_patterns_in_order:
  "parseVolumeIssue Absent = \<lparr>vi_volume = None, vi_issue = None\<rparr> \<and>
   parseVolumeIssue NotAString = \<lparr>vi_volume = None, vi_issue = None\<rparr> \<and>
   parseVolumeIssue (Text []) = \<lparr>vi_volume = None, vi_issue = None\<rparr> \<and>
   (cell \<noteq> [] \<and> first_found (trim cell) i \<longrightarrow>
      (\<exists>pre ws post N M.
          leftmost_greedy (has_form i) (trim cell) pre ws post \<and> form i ws N M \<and>
          parseVolumeIssue (Text cell) = \<lparr>vi_volume = Some N, vi_issue = Some M\<rparr>) \<and>
      (\<forall>pre ws post N M.
          leftmost_greedy (has_form i) (trim cell) pre ws post \<and> form i ws N M \<longrightarrow>
          parseVolumeIssue (Text cell) = \<lparr>vi_volume = Some N, vi_issue = Some M\<rparr>)) \<and>
   (cell \<noteq> [] \<and> (\<forall>j<4. \<not> found j (trim cell)) \<longrightarrow>
      parseVolumeIssue (Text cell) =
        (if number (trim cell) then \<lparr>vi_volume = Some (trim cell), vi_issue = None\<rparr>
         else \<lparr>vi_volume = None, vi_issue = None\<rparr>)) \<and>
   parseVolumeIssue (Text (str ''12(3)'')) = \<lparr>vi_volume = Some (str ''12''), vi_issue = Some (str ''3'')\<rparr> \<and>
   parseVolumeIssue (Text (str ''vol. 5 no. 2'')) = \<lparr>vi_volume = Some (str ''5''), vi_issue = Some (str ''2'')\<rparr> \<and>
   parseVolumeIssue (Text (str ''45'')) = \<lparr>vi_volume = Some (str ''45''), vi_issue = None\<rparr> \<and>
   parseVolumeIssue (Text (str ''abc'')) = \<lparr>vi_volume = None, vi_issue = None\<rparr> \<and>
   parseVolumeIssue (Text (str ''VOL.5 No 2'')) = \<lparr>vi_volume = Some (str ''5''), vi_issue = Some (str ''2'')\<rparr> \<and>
   parseVolumeIssue (Text (str ''v. 12 n. 3'')) = \<lparr>vi_volume = Some (str ''12''), vi_issue = Some (str ''3'')\<rparr> \<and>
   parseVolumeIssue (Text (str ''V12N3'')) = \<lparr>vi_volume = Some (str ''12''), vi_issue = Some (str ''3'')\<rparr> \<and>
   parseVolumeIssue (Text (str ''12-3'')) = \<lparr>vi_volume = Some (str ''12''), vi_issue = Some (str ''3'')\<rparr> \<and>
   parseVolumeIssue (Text (str ''12'' @ [8211] @ str ''3'')) = \<lparr>vi_volume = Some (str ''12''), vi_issue = Some (str ''3'')\<rparr> \<and>
   parseVolumeIssue (Text (str ''12 '' @ [8212] @ str '' 3'')) = \<lparr>vi_volume = Some (str ''12''), vi_issue = Some (str ''3'')\<rparr> \<and>
   parseVolumeIssue (Text (str ''12(3) 45(6)'')) = \<lparr>vi_volume = Some (str ''12''), vi_issue = Some (str ''3'')\<rparr> \<and>
   parseVolumeIssue (Text (str ''1-2 3(4)'')) = \<lparr>vi_volume = Some (str ''3''), vi_issue = Some (str ''4'')\<rparr> \<and>
   parseVolumeIssue (Text (str ''v1n2 vol3no4'')) = \<lparr>vi_volume = Some (str ''3''), vi_issue = Some (str ''4'')\<rparr> \<and>
   parseVolumeIssue (Text (str ''1-2 v3n4'')) = \<lparr>vi_volume = Some (str ''3''), vi_issue = Some (str ''4'')\<rparr>"
proof -
  have first:
    "(\<exists>pre ws post N M.
          leftmost_greedy (has_form i) (trim cell) pre ws post \<and> form i ws N M \<and>
          parseVolumeIssue (Text cell) = \<lparr>vi_volume = Some N, vi_issue = Some M\<rparr>) \<and>
     (\<forall>pre ws post N M.
          leftmost_greedy (has_form i) (trim cell) pre ws post \<and> form i ws N M \<longrightarrow>
          parseVolumeIssue (Text cell) = \<lparr>vi_volume = Some N, vi_issue = Some M\<rparr>)"
    if "cell \<noteq> []" "first_found (trim cell) i"
  proof -
    from that(2) have i4: "i < 4" by (simp add: first_found_def)
    from first_match_leftmost_greedy [OF that(2)] obtain pre ws post N M where
      f: "leftmost_greedy (has_form i) (trim cell) pre ws post" "form i ws N M"
         "first_match patterns (trim cell) = Some \<lparr>vi_volume = Some N, vi_issue = Some M\<rparr>"
      by blast
    from f(3) that(1) have
      p: "parseVolumeIssue (Text cell) = \<lparr>vi_volume = Some N, vi_issue = Some M\<rparr>"
      by (simp add: parseVolumeIssue_def Let_def)
    have "parseVolumeIssue (Text cell) = \<lparr>vi_volume = Some N', vi_issue = Some M'\<rparr>"
      if o: "leftmost_greedy (has_form i) (trim cell) pre' ws' post'" "form i ws' N' M'"
      for pre' ws' post' N' M'
    proof -
      from leftmost_greedy_unique [OF f(1) o(1)] have "ws' = ws" by simp
      with o(2) form_numbers [OF i4 f(2), of N' M'] p show ?thesis by simp
    qed
    with f(1,2) p show ?thesis by blast
  qed
  have none: "parseVolumeIssue (Text cell) =
        (if number (trim cell) then \<lparr>vi_volume = Some (trim cell), vi_issue = None\<rparr>
         else \<lparr>vi_volume = None, vi_issue = None\<rparr>)"
    if "cell \<noteq> []" "\<forall>j<4. \<not> found j (trim cell)"
    using first_match_not_found [OF that(2)] that(1) digits_only_test [of "trim cell"]
    by (simp add: parseVolumeIssue_def Let_def number_digits)
  have e1: "parseVolumeIssue (Text (str ''12(3)'')) =
      \<lparr>vi_volume = Some (str ''12''), vi_issue = Some (str ''3'')\<rparr>"
    by (simp add: parseVolumeIssue_def eval_regex)
  have e2: "parseVolumeIssue (Text (str ''vol. 5 no. 2'')) =
      \<lparr>vi_volume = Some (str ''5''), vi_issue = Some (str ''2'')\<rparr>"
    by (simp add: parseVolumeIssue_def eval_regex)
  have e3: "parseVolumeIssue (Text (str ''45'')) = \<lparr>vi_volume = Some (str ''45''), vi_issue = None\<rparr>"
    by (simp add: parseVolumeIssue_def eval_regex)
  have e4: "parseVolumeIssue (Text (str ''abc'')) = \<lparr>vi_volume = None, vi_issue = None\<rparr>"
    by (simp add: parseVolumeIssue_def eval_regex)
  have e0: "parseVolumeIssue Absent = \<lparr>vi_volume = None, vi_issue = None\<rparr>"
    "parseVolumeIssue NotAString = \<lparr>vi_volume = None, vi_issue = None\<rparr>"
    "parseVolumeIssue (Text []) = \<lparr>vi_volume = None, vi_issue = None\<rparr>"
    by (simp_all add: parseVolumeIssue_def)
  from first none show ?thesis
    by (intro conjI impI e0 e1 e2 e3 e4 parseVolumeIssue_by_pattern) blast+
qed

theorem parseVolumeIssue_patterns_in_order_witness:
  "first_found (trim (str ''x 12 (3) 45(6)'')) 0 \<and>
   (\<exists>pre ws post N M.
       leftmost_greedy (has_form 0) (trim (str ''x 12 (3) 45(6)'')) pre ws post \<and> form 0 ws N M \<and>
       parseVolumeIssue (Text (str ''x 12 (3) 45(6)'')) = \<lparr>vi_volume = Some N, vi_issue = Some M\<rparr>) \<and>
   parseVolumeIssue (Text (str ''x 12 (3) 45(6)'')) =
     \<lparr>vi_volume = Some (str ''12''), vi_issue = Some (str ''3'')\<rparr> \<and>
   number (trim (str '' 2021 '')) \<and>
   parseVolumeIssue (Text (str '' 2021 '')) = \<lparr>vi_volume = Some (str ''2021''), vi_issue = None\<rparr>"
proof -
  have occ: "first_found (trim (str ''x 12 (3) 45(6)'')) 0"
  proof -
    have "regex_search (patterns ! 0) (trim (str ''x 12 (3) 45(6)'')) \<noteq> None"
      by (simp add: eval_regex)
    with found_search [of 0 "trim (str ''x 12 (3) 45(6)'')"]
    show ?thesis by (simp add: first_found_def)
  qed
  have no: "\<forall>j<4. \<not> found j (trim (str '' 2021 ''))"
  proof (intro allI impI)
    fix j :: nat assume j: "j < 4"
    have "regex_search (patterns ! j) (trim (str '' 2021 '')) = None"
      using four_cases [OF j] by (auto simp add: eval_regex)
    with found_search [OF j, of "trim (str '' 2021 '')"]
    show "\<not> found j (trim (str '' 2021 ''))" by simp
  qed
  have ne: "str ''x 12 (3) 45(6)'' \<noteq> []" "str '' 2021 '' \<noteq> []" by (simp_all add: str_def)
  have t: "trim (str '' 2021 '') = str ''2021''" by (simp add: eval_regex)
  have d: "number (trim (str '' 2021 ''))" by (simp add: t) (simp add: number_def str_def)
  from parseVolumeIssue_patterns_in_order [of "str ''x 12 (3) 45(6)''" 0] occ ne(1)
  have a: "\<exists>pre ws post N M.
       leftmost_greedy (has_form 0) (trim (str ''x 12 (3) 45(6)'')) pre ws post \<and> form 0 ws N M \<and>
       parseVolumeIssue (Text (str ''x 12 (3) 45(6)'')) = \<lparr>vi_volume = Some N, vi_issue = Some M\<rparr>"
    by blast
  have v: "parseVolumeIssue (Text (str ''x 12 (3) 45(6)'')) =
     \<lparr>vi_volume = Some (str ''12''), vi_issue = Some (str ''3'')\<rparr>"
    by (simp add: parseVolumeIssue_def eval_regex)
  from parseVolumeIssue_patterns_in_order [of "str '' 2021 ''" 0] no ne(2) t d
  have b: "parseVolumeIssue (Text (str '' 2021 '')) = \<lparr>vi_volume = Some (str ''2021''), vi_issue = None\<rparr>"
    by simp
  from occ a v d b show ?thesis by blast
qed

section \<open>Properties of \<open>parseAuthors\<close>\<close>

lemma includes_char: "js_includes s [c] \<longleftrightarrow> c \<in> set s"
  by (induction s) (auto simp add: startsWith_def)

lemma takeWhile_without: "c \<notin> set s \<Longrightarrow> takeWhile (\<lambda>x. x \<noteq> c) s = s"
  by (induction s) auto

lemma dropWhile_without: "c \<notin> set s \<Longrightarrow> dropWhile (\<lambda>x. x \<noteq> c) s = []"
  by (induction s) auto

lemma split_from_char:
  "split_from [c] cur s =
     (cur @ takeWhile (\<lambda>x. x \<noteq> c) s) #
     (case dropWhile (\<lambda>x. x \<noteq> c) s of [] \<Rightarrow> [] | x # rest \<Rightarrow> split_from [c] [] rest)"
  by (induction s arbitrary: cur) (auto simp add: startsWith_def)

lemma js_split_char:
  "js_split [c] s =
     takeWhile (\<lambda>x. x \<noteq> c) s #
     (if c \<in> set s then js_split [c] (tl (dropWhile (\<lambda>x. x \<noteq> c) s)) else [])"
proof (cases "c \<in> set s")
  case True
  then have "dropWhile (\<lambda>x. x \<noteq> c) s \<noteq> []" by (simp add: dropWhile_eq_Nil_conv)
  then obtain x rest where d: "dropWhile (\<lambda>x. x \<noteq> c) s = x # rest" by (cases "dropWhile (\<lambda>x. x \<noteq> c) s") auto
  with True show ?thesis
    by (simp add: js_split_def split_from_char [of c "[]" s])
next
  case False
  then show ?thesis
    by (simp add: js_split_def split_from_char [of c "[]" s] dropWhile_without)
qed

lemma rest_shorter: "c \<in> set s \<Longrightarrow> length (tl (dropWhile (\<lambda>x. x \<noteq> c) s)) < length s"
proof -
  assume "c \<in> set s"
  then have "dropWhile (\<lambda>x. x \<noteq> c) s \<noteq> []" by (simp add: dropWhile_eq_Nil_conv)
  then have "length (tl (dropWhile (\<lambda>x. x \<noteq> c) s)) < length (dropWhile (\<lambda>x. x \<noteq> c) s)"
    by (cases "dropWhile (\<lambda>x. x \<noteq> c) s") auto
  also have "\<dots> \<le> length s" by (rule length_dropWhile_le)
  finally show ?thesis .
qed

lemma js_split_char_nonempty: "js_split [c] s \<noteq> []"
  by (subst js_split_char) simp

lemma join_Cons: "ps \<noteq> [] \<Longrightarrow> join sep (p # ps) = p @ sep @ join sep ps"
  by (cases ps) auto

lemma join_snoc: "ps \<noteq> [] \<Longrightarrow> join sep (ps @ [q]) = join sep ps @ sep @ q"
proof (induction ps rule: join.induct[of _ sep])
  case (1 sep)
  then show ?case by simp
next
  case (2 sep p)
  then show ?case by simp
next
  case (3 sep p q' ps)
  then show ?case by simp
qed

lemma join_split_char: "join [c] (js_split [c] s) = s"
proof (induction s rule: length_induct)
  case (1 s)
  show ?case
  proof (cases "c \<in> set s")
    case True
    let ?rest = "tl (dropWhile (\<lambda>x. x \<noteq> c) s)"
    from True have d: "dropWhile (\<lambda>x. x \<noteq> c) s = c # ?rest"
      by (metis (mono_tags, lifting) dropWhile_eq_Nil_conv hd_dropWhile list.collapse)
    have "join [c] (js_split [c] s) = takeWhile (\<lambda>x. x \<noteq> c) s @ [c] @ join [c] (js_split [c] ?rest)"
      using True js_split_char [of c s] js_split_char_nonempty [of c ?rest]
      by (simp add: join_Cons)
    also have "join [c] (js_split [c] ?rest) = ?rest"
      using "1.IH" rest_shorter [OF True] by blast
    also have "takeWhile (\<lambda>x. x \<noteq> c) s @ [c] @ ?rest = s"
      using d takeWhile_dropWhile_id [of "\<lambda>x. x \<noteq> c" s] by simp
    finally show ?thesis .
  next
    case False
    then show ?thesis by (subst js_split_char) (simp add: takeWhile_without)
  qed
qed

lemma last_split_char:
  "last (js_split [c] s) = rev (takeWhile (\<lambda>x. x \<noteq> c) (rev s))"
proof (induction s rule: length_induct)
  case (1 s)
  show ?case
  proof (cases "c \<in> set s")
    case True
    let ?rest = "tl (dropWhile (\<lambda>x. x \<noteq> c) s)"
    from True have d: "dropWhile (\<lambda>x. x \<noteq> c) s = c # ?rest"
      by (metis (mono_tags, lifting) dropWhile_eq_Nil_conv hd_dropWhile list.collapse)
    have s: "s = takeWhile (\<lambda>x. x \<noteq> c) s @ c # ?rest"
      using d takeWhile_dropWhile_id [of "\<lambda>x. x \<noteq> c" s] by simp
    have "last (js_split [c] s) = last (js_split [c] ?rest)"
      using True js_split_char [of c s] js_split_char_nonempty [of c ?rest] by simp
    also have "\<dots> = rev (takeWhile (\<lambda>x. x \<noteq> c) (rev ?rest))"
      using "1.IH" rest_shorter [OF True] by blast
    also have "\<dots> = rev (takeWhile (\<lambda>x. x \<noteq> c) (rev s))"
    proof -
      have "rev s = rev ?rest @ c # rev (takeWhile (\<lambda>x. x \<noteq> c) s)"
        by (subst s) simp
      moreover have "takeWhile (\<lambda>x. x \<noteq> c) (ys @ c # zs) = takeWhile (\<lambda>x. x \<noteq> c) ys" for ys zs
        by (induction ys) auto
      ultimately show ?thesis by simp
    qed
    finally show ?thesis .
  next
    case False
    then have "c \<notin> set (rev s)" by simp
    with False show ?thesis
      by (subst js_split_char) (simp add: takeWhile_without del: set_rev)
  qed
qed
lemma split_comma_first_two:
  assumes "c \<in> set f"
  shows "take 2 (js_split [c] f) = [before_first c f, before_first c (after_first c f)]"
proof -
  have "js_split [c] f = before_first c f # js_split [c] (after_first c f)"
    using assms js_split_char [of c f] by (simp add: before_first_def after_first_def)
  moreover obtain more where "js_split [c] (after_first c f) =
      before_first c (after_first c f) # more"
    using js_split_char [of c "after_first c f"] by (simp add: before_first_def)
  ultimately show ?thesis by (simp add: numeral_2_eq_2)
qed

lemma split_at_last: "c \<in> set s \<Longrightarrow> s = before_last c s @ c # after_last c s"
proof -
  assume "c \<in> set s"
  then have "c \<in> set (rev s)" by simp
  then have "dropWhile (\<lambda>x. x \<noteq> c) (rev s) = c # tl (dropWhile (\<lambda>x. x \<noteq> c) (rev s))"
    by (metis (mono_tags, lifting) dropWhile_eq_Nil_conv hd_dropWhile list.collapse)
  then have "rev s = takeWhile (\<lambda>x. x \<noteq> c) (rev s) @ c # tl (dropWhile (\<lambda>x. x \<noteq> c) (rev s))"
    by (metis takeWhile_dropWhile_id)
  then have "rev (rev s) = rev (takeWhile (\<lambda>x. x \<noteq> c) (rev s) @ c # tl (dropWhile (\<lambda>x. x \<noteq> c) (rev s)))"
    by simp
  then show ?thesis by (simp add: before_last_def after_last_def)
qed

lemma split_space_parts:
  assumes "c \<in> set f"
  shows "length (js_split [c] f) > 1"
    and "js_split [c] f ! 0 = before_first c f"
    and "last (js_split [c] f) = after_last c f"
    and "join [c] (butlast (js_split [c] f)) = before_last c f"
proof -
  let ?parts = "js_split [c] f"
  have p: "?parts = before_first c f # js_split [c] (after_first c f)"
    using assms js_split_char [of c f] by (simp add: before_first_def after_first_def)
  show len: "length ?parts > 1"
    using js_split_char_nonempty [of c "after_first c f"] by (subst p) (simp add: Suc_lessI)
  show "?parts ! 0 = before_first c f" by (subst p) simp
  show l: "last ?parts = after_last c f" by (simp add: last_split_char after_last_def)
  from len have ne: "butlast ?parts \<noteq> []" by (cases ?parts; cases "tl ?parts") auto
  have "?parts = butlast ?parts @ [last ?parts]"
    using js_split_char_nonempty [of c f] by simp
  then have "join [c] ?parts = join [c] (butlast ?parts) @ [c] @ last ?parts"
    using join_snoc [OF ne, of "[c]" "last ?parts"] by simp
  then have "f = join [c] (butlast ?parts) @ c # after_last c f"
    by (simp add: join_split_char l)
  with split_at_last [OF assms] show "join [c] (butlast ?parts) = before_last c f"
    by (metis append_same_eq append_Cons append_Nil append_assoc)
qed

lemma split_without: "c \<notin> set f \<Longrightarrow> js_split [c] f = [f]"
  by (subst js_split_char) (simp add: takeWhile_without)

lemma author_entries_eq: "author_entries f = entries_of_fragment f"
proof (cases "f = []")
  case True
  then show ?thesis by (simp add: author_entries_def entries_of_fragment_def)
next
  case False
  have c: "str '','' = [44]" "str '' '' = [32]" by (simp_all add: str_def)
  show ?thesis
  proof (cases "44 \<in> set f")
    case True
    with False show ?thesis
      by (simp add: author_entries_def entries_of_fragment_def c includes_char
          split_comma_first_two Let_def)
  next
    case no_comma: False
    show ?thesis
    proof (cases "32 \<in> set f")
      case True
      with False no_comma split_space_parts [OF True] show ?thesis
        by (simp add: author_entries_def entries_of_fragment_def c includes_char Let_def)
    next
      case no_space: False
      with False no_comma show ?thesis
        by (simp add: author_entries_def entries_of_fragment_def c includes_char Let_def
            split_without)
    qed
  qed
qed

lemma push_all: "foldl (\<lambda>acc a. acc @ g a) init xs = init @ concat (map g xs)"
  by (induction xs arbitrary: init) auto

lemma parseAuthors_fragments:
  "trim cell \<noteq> [] \<Longrightarrow>
     parseAuthors (Text cell) = concat (map entries_of_fragment (fragments (trim cell)))"
proof -
  assume t: "trim cell \<noteq> []"
  then have "cell \<noteq> []" by (auto simp add: trim_def)
  moreover have "str '';'' = [59]" by (simp add: str_def)
  ultimately show ?thesis
    using t
    by (simp add: parseAuthors_def Let_def push_all author_entries_eq [abs_def] fragments_def
        includes_char)
qed
lemmas eval_authors =
  parseAuthors_def author_entries_def js_split_def startsWith_def trim_def is_space_def str_def
  Let_def

lemma parseAuthors_examples:
  "parseAuthors (Text (str ''Smith, John; Doe, Jane'')) =
     [FamilyGiven (str ''Smith'') (str ''John''), FamilyGiven (str ''Doe'') (str ''Jane'')]"
  "parseAuthors (Text (str ''John Smith'')) = [FamilyGiven (str ''Smith'') (str ''John'')]"
  "parseAuthors (Text (str ''Acme'')) = [Literal (str ''Acme'')]"
  by (simp_all add: eval_authors)

text \<open>
  Claim C6, as amended. \<open>parseAuthors\<close> splits the trimmed cell on the first delimiter
  that occurs in it, in the order \<open>;\<close>, \<open>" & "\<close>, \<open>" and "\<close>, else takes the whole
  cell as one fragment; each trimmed non-empty fragment gives the entries described by
  \<open>entries_of_fragment\<close>: with a comma, the fragment is cut at every comma and only the
  first two pieces are used (family and given when both are non-empty after trimming,
  nothing otherwise); without a comma it is cut at single space characters, and with two or
  more pieces and a first piece longer than one character the last piece is the family
  name and the pieces before it, joined by a space, the given name; any other fragment is
  a literal name. An absent, non-string, empty or blank cell gives no entry.
\<close>

theorem parseAuthors_by_fragment:
  "parseAuthors Absent = [] \<and> parseAuthors NotAString = [] \<and>
   (trim cell = [] \<longrightarrow> parseAuthors (Text cell) = []) \<and>
   (trim cell \<noteq> [] \<longrightarrow>
      parseAuthors (Text cell) = concat (map entries_of_fragment (fragments (trim cell)))) \<and>
   parseAuthors (Text (str ''Smith, John; Doe, Jane'')) =
     [FamilyGiven (str ''Smith'') (str ''John''), FamilyGiven (str ''Doe'') (str ''Jane'')] \<and>
   parseAuthors (Text (str ''John Smith'')) = [FamilyGiven (str ''Smith'') (str ''John'')] \<and>
   parseAuthors (Text (str ''Acme'')) = [Literal (str ''Acme'')]"
  using parseAuthors_fragments [of cell] parseAuthors_examples
  by (simp add: parseAuthors_def)

theorem parseAuthors_by_fragment_witness:
  "trim (str '' J Smith & Alan M. Turing & Knuth, Donald E., Prof. '') \<noteq> [] \<and>
   parseAuthors (Text (str '' J Smith & Alan M. Turing & Knuth, Donald E., Prof. '')) =
     [Literal (str ''J Smith''), FamilyGiven (str ''Turing'') (str ''Alan M.''),
      FamilyGiven (str ''Knuth'') (str ''Donald E.'')]"
proof -
  let ?cell = "str '' J Smith & Alan M. Turing & Knuth, Donald E., Prof. ''"
  have t: "trim ?cell = str ''J Smith & Alan M. Turing & Knuth, Donald E., Prof.''"
    by (simp add: trim_def is_space_def str_def)
  then have ne: "trim ?cell \<noteq> []" by (simp add: str_def)
  have f: "fragments (str ''J Smith & Alan M. Turing & Knuth, Donald E., Prof.'') =
      [str ''J Smith'', str ''Alan M. Turing'', str ''Knuth, Donald E., Prof.'']"
    by (simp add: fragments_def js_split_def startsWith_def trim_def is_space_def str_def)
  have e: "entries_of_fragment (str ''J Smith'') = [Literal (str ''J Smith'')]"
    "entries_of_fragment (str ''Alan M. Turing'') = [FamilyGiven (str ''Turing'') (str ''Alan M.'')]"
    "entries_of_fragment (str ''Knuth, Donald E., Prof.'') = [FamilyGiven (str ''Knuth'') (str ''Donald E.'')]"
    by (simp_all add: entries_of_fragment_def before_first_def after_first_def before_last_def
        after_last_def trim_def is_space_def str_def)
  from parseAuthors_by_fragment [of ?cell] ne have
    "parseAuthors (Text ?cell) = concat (map entries_of_fragment (fragments (trim ?cell)))"
    by blast
  with t f e ne show ?thesis by simp
qed

text \<open>
  Claim C6 as stated fails on a fragment with two commas: split at the first comma only,
  \<open>Smith, John, Jr.\<close> would have the given name \<open>John, Jr.\<close>, but \<open>split(',', 2)\<close>
  cuts at every comma and keeps two pieces, so the given name is \<open>John\<close>. It also fails
  on white space other than the space: \<open>John\<close>, a tab, \<open>Smith\<close> are two
  whitespace-separated tokens, yet the fragment is a literal name, since \<open>split(' ')\<close>
  cuts at spaces only.
\<close>

theorem parseAuthors_split_counterexample:
  "parseAuthors (Text (str ''Smith, John, Jr.'')) = [FamilyGiven (str ''Smith'') (str ''John'')] \<and>
   trim (before_first 44 (str ''Smith, John, Jr.'')) = str ''Smith'' \<and>
   trim (after_first 44 (str ''Smith, John, Jr.'')) = str ''John, Jr.'' \<and>
   str ''John'' \<noteq> str ''John, Jr.'' \<and>
   is_space 9 \<and>
   parseAuthors (Text (str ''John'' @ [9] @ str ''Smith'')) =
     [Literal (str ''John'' @ [9] @ str ''Smith'')]"
  by (simp add: eval_authors before_first_def after_first_def)

section \<open>Properties of \<open>createCslItem\<close>\<close>

lemma longest_first_once:
  "longest_first k s (Suc 0) (Suc 0) =
     (case k (drop (Suc 0) s) of Some r \<Rightarrow> Some (take (Suc 0) s, r) | None \<Rightarrow> None)"
  by (simp add: longest_first.simps [of k s "Suc 0" "Suc 0"] split: option.splits)

lemma regex_match_lit:
  "regex_match (lit c # as) s =
     (case s of [] \<Rightarrow> None | x # xs \<Rightarrow> if x = c then regex_match as xs else None)"
proof (cases s)
  case Nil
  then show ?thesis by (simp add: lit_def)
next
  case (Cons x xs)
  show ?thesis
  proof (cases "x = c")
    case True
    have "min (Suc 0) (Suc (length (takeWhile (\<lambda>x. x = c) xs))) = Suc 0" by simp
    with True Cons show ?thesis
      by (simp add: lit_def longest_first_once split: option.splits)
  next
    case False
    with Cons show ?thesis by (simp add: lit_def)
  qed
qed

lemma regex_match_opt_lit:
  "regex_match (opt_lit c # as) s =
     (case s of
        [] \<Rightarrow> regex_match as []
      | x # xs \<Rightarrow>
          if x = c then (case regex_match as xs of Some r \<Rightarrow> Some r | None \<Rightarrow> regex_match as s)
          else regex_match as s)"
proof (cases s)
  case Nil
  then show ?thesis
    by (simp add: opt_lit_def longest_first.simps [of _ _ 0 0] split: option.splits)
next
  case (Cons x xs)
  show ?thesis
  proof (cases "x = c")
    case True
    have "min (Suc 0) (Suc (length (takeWhile (\<lambda>x. x = c) xs))) = Suc 0" by simp
    with True Cons show ?thesis
      by (simp add: opt_lit_def longest_first.simps [of _ _ 0 "Suc 0"]
          longest_first.simps [of _ _ 0 0] split: option.splits)
  next
    case False
    with Cons show ?thesis
      by (simp add: opt_lit_def longest_first.simps [of _ _ 0 0] split: option.splits)
  qed
qed

lemma strip_https:
  "strip_doi_org (str ''https://doi.org/'' @ rest) = rest"
  by (simp add: strip_doi_org_def doi_org_def str_def regex_match_lit regex_match_opt_lit
      del: regex_match.simps(2))

lemma strip_http:
  "strip_doi_org (str ''http://doi.org/'' @ rest) = rest"
  by (simp add: strip_doi_org_def doi_org_def str_def regex_match_lit regex_match_opt_lit
      del: regex_match.simps(2))

lemma startsWith_append: "startsWith s p \<longleftrightarrow> (\<exists>rest. s = p @ rest)"
  unfolding startsWith_def by (metis append_eq_conv_conj append_take_drop_id)

lemma doi_org_matches:
  assumes "regex_match doi_org d \<noteq> None"
  shows "startsWith d (str ''https://doi.org/'') \<or> startsWith d (str ''http://doi.org/'')"
proof -
  from assms have
    "(\<exists>rest. d = str ''https://doi.org/'' @ rest) \<or> (\<exists>rest. d = str ''http://doi.org/'' @ rest)"
    by (auto simp add: doi_org_def str_def regex_match_lit regex_match_opt_lit
        simp del: regex_match.simps(2) split: list.splits if_splits option.splits)
  then show ?thesis by (simp add: startsWith_append)
qed

lemma strip_doi_org_eq:
  "strip_doi_org d =
     (if startsWith d (str ''https://doi.org/'') then drop 16 d
      else if startsWith d (str ''http://doi.org/'') then drop 15 d
      else d)"
proof (cases "startsWith d (str ''https://doi.org/'')")
  case True
  then obtain rest where "d = str ''https://doi.org/'' @ rest" by (auto simp: startsWith_append)
  with True strip_https [of rest] show ?thesis by (simp add: str_def)
next
  case False
  show ?thesis
  proof (cases "startsWith d (str ''http://doi.org/'')")
    case True
    then obtain rest where "d = str ''http://doi.org/'' @ rest" by (auto simp: startsWith_append)
    with False True strip_http [of rest] show ?thesis by (simp add: str_def)
  next
    case nh: False
    with False doi_org_matches [of d] have "regex_match doi_org d = None" by blast
    with False nh show ?thesis by (simp add: strip_doi_org_def)
  qed
qed
lemma set_steps_identifier:
  "DOI (set_title row item) = DOI item" "URL (set_title row item) = URL item"
  "DOI (set_author row item) = DOI item" "URL (set_author row item) = URL item"
  "DOI (set_issued row item) = DOI item" "URL (set_issued row item) = URL item"
  "DOI (set_container_title row item) = DOI item" "URL (set_container_title row item) = URL item"
  "DOI (set_volume_issue row item) = DOI item" "URL (set_volume_issue row item) = URL item"
  "DOI (set_page row item) = DOI item" "URL (set_page row item) = URL item"
  "DOI (set_publisher row item) = DOI item" "URL (set_publisher row item) = URL item"
  "DOI (new_item row index) = None" "URL (new_item row index) = None"
  by (simp_all add: set_publisher_def set_page_def set_volume_issue_def set_container_title_def
      set_issued_def set_author_def set_title_def new_item_def Let_def)

lemma set_doi_fields:
  assumes "DOI item = None" and "URL item = None"
  shows "DOI (set_doi row item) =
           (if truthy (doiField row) \<and> startsWith (trim (String_of (doiField row))) (str ''http'') \<and>
               js_includes (trim (String_of (doiField row))) (str ''doi.org/'')
            then Some (strip_doi_org (trim (String_of (doiField row))))
            else if truthy (doiField row) \<and> \<not> startsWith (trim (String_of (doiField row))) (str ''http'') \<and>
               startsWith (trim (String_of (doiField row))) (str ''10.'')
            then Some (trim (String_of (doiField row)))
            else None)"
    and "URL (set_doi row item) =
           (if truthy (doiField row) \<and> startsWith (trim (String_of (doiField row))) (str ''http'') \<and>
               \<not> js_includes (trim (String_of (doiField row))) (str ''doi.org/'')
            then Some (trim (String_of (doiField row)))
            else None)"
  using assms by (simp_all add: set_doi_def doiField_def Let_def)

lemma set_url_fields:
  "DOI (set_url row item) = DOI item"
  "URL (set_url row item) =
     (if truthy (urlField row) \<and> \<not> truthy (DOI item) \<and> \<not> truthy (URL item) \<and>
         startsWith (trim (String_of (urlField row))) (str ''http'')
      then Some (trim (String_of (urlField row))) else URL item)"
  by (simp_all add: set_url_def urlField_def Let_def)

lemma createCslItem_identifier:
  "DOI (createCslItem row index) = DOI (set_doi row (new_item row index))"
  "URL (createCslItem row index) =
     (if truthy (urlField row) \<and> \<not> truthy (DOI (set_doi row (new_item row index))) \<and>
         \<not> truthy (URL (set_doi row (new_item row index))) \<and>
         startsWith (trim (String_of (urlField row))) (str ''http'')
      then Some (trim (String_of (urlField row)))
      else URL (set_doi row (new_item row index)))"
proof -
  define before where "before = set_page row (set_volume_issue row (set_container_title row
      (set_issued row (set_author row (set_title row (new_item row index))))))"
  have b: "DOI before = None" "URL before = None"
    by (simp_all add: before_def set_steps_identifier)
  have c: "createCslItem row index = set_publisher row (set_url row (set_doi row before))"
    by (simp add: createCslItem_def before_def)
  have n: "DOI (new_item row index) = None" "URL (new_item row index) = None"
    by (simp_all add: set_steps_identifier)
  have same: "DOI (set_doi row before) = DOI (set_doi row (new_item row index))"
    "URL (set_doi row before) = URL (set_doi row (new_item row index))"
    by (simp_all add: set_doi_fields [OF b] set_doi_fields [OF n])
  show "DOI (createCslItem row index) = DOI (set_doi row (new_item row index))"
    by (simp add: c set_steps_identifier set_url_fields same)
  show "URL (createCslItem row index) =
     (if truthy (urlField row) \<and> \<not> truthy (DOI (set_doi row (new_item row index))) \<and>
         \<not> truthy (URL (set_doi row (new_item row index))) \<and>
         startsWith (trim (String_of (urlField row))) (str ''http'')
      then Some (trim (String_of (urlField row)))
      else URL (set_doi row (new_item row index)))"
    by (simp add: c set_steps_identifier set_url_fields same)
qed

lemma includes_append: "js_includes (a @ sub @ b) sub"
proof (induction a)
  case Nil
  show ?case
  proof (cases "sub @ b")
    case Nil
    then show ?thesis by simp
  next
    case (Cons y ys)
    have "startsWith (sub @ b) sub" by (simp add: startsWith_def)
    with Cons show ?thesis by simp
  qed
next
  case (Cons x a)
  then show ?case by simp
qed

lemma doi_org_prefix_tests:
  assumes "startsWith d (str ''https://doi.org/'') \<or> startsWith d (str ''http://doi.org/'')"
  shows "startsWith d (str ''http'')" and "js_includes d (str ''doi.org/'')"
proof -
  from assms obtain rest where
    d: "d = str ''https://doi.org/'' @ rest \<or> d = str ''http://doi.org/'' @ rest"
    by (auto simp add: startsWith_append)
  then show "startsWith d (str ''http'')"
    by (auto simp add: startsWith_def str_def)
  have "str ''https://doi.org/'' @ rest = str ''https://'' @ str ''doi.org/'' @ rest"
    "str ''http://doi.org/'' @ rest = str ''http://'' @ str ''doi.org/'' @ rest"
    by (simp_all add: str_def)
  with d includes_append [of "str ''https://''" "str ''doi.org/''" rest]
    includes_append [of "str ''http://''" "str ''doi.org/''" rest]
  show "js_includes d (str ''doi.org/'')" by auto
qed
lemma startsWith_nth: "startsWith d p \<Longrightarrow> i < length p \<Longrightarrow> d ! i = p ! i"
  unfolding startsWith_def by (metis nth_take)

lemma ten_is_not_http: "startsWith d (str ''10.'') \<Longrightarrow> \<not> startsWith d (str ''http'')"
proof
  assume "startsWith d (str ''10.'')" "startsWith d (str ''http'')"
  from startsWith_nth [OF this(1), of 0] startsWith_nth [OF this(2), of 0]
  show False by (simp add: str_def)
qed

lemma https_is_not_http_doi:
  "startsWith d (str ''http://doi.org/'') \<Longrightarrow> \<not> startsWith d (str ''https://doi.org/'')"
proof
  assume "startsWith d (str ''http://doi.org/'')" "startsWith d (str ''https://doi.org/'')"
  from startsWith_nth [OF this(1), of 4] startsWith_nth [OF this(2), of 4]
  show False by (simp add: str_def)
qed

lemma identifier_after_set_doi:
  fixes row index
  defines "d \<equiv> trim (String_of (doiField row))"
  defines "item \<equiv> set_doi row (new_item row index)"
  shows "truthy (doiField row) \<Longrightarrow> startsWith d (str ''https://doi.org/'') \<Longrightarrow>
           DOI item = Some (drop 16 d) \<and> URL item = None"
    and "truthy (doiField row) \<Longrightarrow> startsWith d (str ''http://doi.org/'') \<Longrightarrow>
           DOI item = Some (drop 15 d) \<and> URL item = None"
    and "truthy (doiField row) \<Longrightarrow> startsWith d (str ''http'') \<Longrightarrow>
         \<not> js_includes d (str ''doi.org/'') \<Longrightarrow> DOI item = None \<and> URL item = Some d"
    and "truthy (doiField row) \<Longrightarrow> startsWith d (str ''10.'') \<Longrightarrow>
           DOI item = Some d \<and> URL item = None"
    and "\<not> truthy (doiField row) \<or> (\<not> startsWith d (str ''http'') \<and> \<not> startsWith d (str ''10.'')) \<Longrightarrow>
           DOI item = None \<and> URL item = None"
proof -
  note fields = set_doi_fields [of "new_item row index" row, OF set_steps_identifier(15,16),
      folded d_def item_def]
  show "truthy (doiField row) \<Longrightarrow> startsWith d (str ''https://doi.org/'') \<Longrightarrow>
           DOI item = Some (drop 16 d) \<and> URL item = None"
    using doi_org_prefix_tests [of d] by (simp add: fields strip_doi_org_eq)
  show "truthy (doiField row) \<Longrightarrow> startsWith d (str ''http://doi.org/'') \<Longrightarrow>
           DOI item = Some (drop 15 d) \<and> URL item = None"
    using doi_org_prefix_tests [of d] https_is_not_http_doi [of d]
    by (simp add: fields strip_doi_org_eq)
  show "truthy (doiField row) \<Longrightarrow> startsWith d (str ''http'') \<Longrightarrow>
         \<not> js_includes d (str ''doi.org/'') \<Longrightarrow> DOI item = None \<and> URL item = Some d"
    by (simp add: fields)
  show "truthy (doiField row) \<Longrightarrow> startsWith d (str ''10.'') \<Longrightarrow>
           DOI item = Some d \<and> URL item = None"
    using ten_is_not_http [of d] by (simp add: fields)
  show "\<not> truthy (doiField row) \<or> (\<not> startsWith d (str ''http'') \<and> \<not> startsWith d (str ''10.'')) \<Longrightarrow>
           DOI item = None \<and> URL item = None"
    by (auto simp add: fields)
qed
text \<open>
  Claim C7, as amended. Let \<open>d\<close> be the trimmed value of the identifier column (the first
  non-empty of \<open>DOI\<close>, \<open>DOI/URL\<close>, \<open>doi\<close>) and \<open>u\<close> the trimmed value of the URL
  column. If \<open>d\<close> starts with \<open>https://doi.org/\<close> or \<open>http://doi.org/\<close>, that prefix
  is stripped and the rest is stored as DOI. If \<open>d\<close> starts with \<open>http\<close> and does not
  contain \<open>doi.org/\<close>, it is stored as URL and no DOI is set. If \<open>d\<close> starts with
  \<open>10.\<close>, it is stored as DOI. Any other value is ignored. The URL column is honoured
  only when the identifier column left neither a non-empty DOI nor a URL and \<open>u\<close> starts
  with \<open>http\<close>. (A value that starts with \<open>http\<close> and contains \<open>doi.org/\<close> without
  starting with one of the two prefixes is not covered here: see the counterexample.)
\<close>

theorem identifier_columns:
  "(let d = trim (String_of (doiField row)); u = trim (String_of (urlField row));
        item = createCslItem row index;
        from_url_column = (if truthy (urlField row) \<and> startsWith u (str ''http'') then Some u else None)
    in (truthy (doiField row) \<and> startsWith d (str ''https://doi.org/'') \<longrightarrow>
          DOI item = Some (drop 16 d) \<and>
          URL item = (if drop 16 d = [] then from_url_column else None)) \<and>
       (truthy (doiField row) \<and> startsWith d (str ''http://doi.org/'') \<longrightarrow>
          DOI item = Some (drop 15 d) \<and>
          URL item = (if drop 15 d = [] then from_url_column else None)) \<and>
       (truthy (doiField row) \<and> startsWith d (str ''http'') \<and> \<not> js_includes d (str ''doi.org/'') \<longrightarrow>
          DOI item = None \<and> URL item = Some d) \<and>
       (truthy (doiField row) \<and> startsWith d (str ''10.'') \<longrightarrow>
          DOI item = Some d \<and> URL item = None) \<and>
       (\<not> truthy (doiField row) \<or> (\<not> startsWith d (str ''http'') \<and> \<not> startsWith d (str ''10.'')) \<longrightarrow>
          DOI item = None \<and> URL item = from_url_column))"
proof -
  define d where "d = trim (String_of (doiField row))"
  define u where "u = trim (String_of (urlField row))"
  define from_url_column where
    "from_url_column = (if truthy (urlField row) \<and> startsWith u (str ''http'') then Some u else None)"
  define after where "after = set_doi row (new_item row index)"
  have final: "DOI (createCslItem row index) = DOI after"
    "URL (createCslItem row index) =
       (if \<not> truthy (DOI after) \<and> \<not> truthy (URL after) then
          (if URL after = None then from_url_column
           else if truthy (urlField row) \<and> startsWith u (str ''http'') then Some u else URL after)
        else URL after)"
    by (simp_all add: createCslItem_identifier after_def u_def from_url_column_def)
  note cases = identifier_after_set_doi [of row index, folded d_def after_def]
  have https: "DOI (createCslItem row index) = Some (drop 16 d) \<and>
      URL (createCslItem row index) = (if drop 16 d = [] then from_url_column else None)"
    if "truthy (doiField row)" "startsWith d (str ''https://doi.org/'')"
    using cases(1) [OF that] by (simp add: final)
  have http: "DOI (createCslItem row index) = Some (drop 15 d) \<and>
      URL (createCslItem row index) = (if drop 15 d = [] then from_url_column else None)"
    if "truthy (doiField row)" "startsWith d (str ''http://doi.org/'')"
    using cases(2) [OF that] by (simp add: final)
  have url: "DOI (createCslItem row index) = None \<and> URL (createCslItem row index) = Some d"
    if "truthy (doiField row)" "startsWith d (str ''http'')" "\<not> js_includes d (str ''doi.org/'')"
  proof -
    have "d \<noteq> []" using that(2) by (auto simp add: startsWith_def str_def)
    with cases(3) [OF that] show ?thesis by (simp add: final)
  qed
  have ten: "DOI (createCslItem row index) = Some d \<and> URL (createCslItem row index) = None"
    if "truthy (doiField row)" "startsWith d (str ''10.'')"
  proof -
    have "d \<noteq> []" using that(2) by (auto simp add: startsWith_def str_def)
    with cases(4) [OF that] show ?thesis by (simp add: final)
  qed
  have other: "DOI (createCslItem row index) = None \<and> URL (createCslItem row index) = from_url_column"
    if "\<not> truthy (doiField row) \<or> (\<not> startsWith d (str ''http'') \<and> \<not> startsWith d (str ''10.''))"
    using cases(5) [OF that] by (simp add: final)
  from https http url ten other show ?thesis
    unfolding Let_def d_def [symmetric] u_def [symmetric] from_url_column_def [symmetric]
    by blast
qed
theorem identifier_columns_witness:
  "DOI (createCslItem (row_doi (str ''https://doi.org/10.1234/x'')) 0) = Some (str ''10.1234/x'') \<and>
   URL (createCslItem (row_doi (str ''https://doi.org/10.1234/x'')) 0) = None \<and>
   DOI (createCslItem (row_doi (str ''https://example.com/a'')) 0) = None \<and>
   URL (createCslItem (row_doi (str ''https://example.com/a'')) 0) = Some (str ''https://example.com/a'') \<and>
   DOI (createCslItem (row_doi (str ''10.5555/y'')) 0) = Some (str ''10.5555/y'') \<and>
   URL (createCslItem (row_doi (str ''10.5555/y'')) 0) = None \<and>
   DOI (createCslItem (row_doi (str ''see publisher'')) 0) = None \<and>
   URL (createCslItem (row_doi (str ''see publisher'')) 0) = Some (str ''https://example.org/b'')"
proof -
  have a: "DOI (createCslItem (row_doi (str ''https://doi.org/10.1234/x'')) 0) = Some (str ''10.1234/x'') \<and> URL (createCslItem (row_doi (str ''https://doi.org/10.1234/x'')) 0) = None"
  proof -
    have f: "doiField (row_doi (str ''https://doi.org/10.1234/x'')) = Some (str ''https://doi.org/10.1234/x'')"
      "urlField (row_doi (str ''https://doi.org/10.1234/x'')) = Some (str ''https://example.org/b'')"
      by (simp_all add: doiField_def urlField_def row_doi_def or_else_def str_def)
    have t: "trim (str ''https://doi.org/10.1234/x'') = str ''https://doi.org/10.1234/x''"
      "trim (str ''https://example.org/b'') = str ''https://example.org/b''"
      by (simp_all add: str_def trim_def is_space_def)
    have s: "startsWith (str ''https://doi.org/10.1234/x'') (str ''https://doi.org/'')"
      "startsWith (str ''https://example.org/b'') (str ''http'')"
      "drop 16 (str ''https://doi.org/10.1234/x'') = str (drop 16 ''https://doi.org/10.1234/x'')"
      "str ''https://doi.org/10.1234/x'' \<noteq> []" "str ''https://example.org/b'' \<noteq> []"
      by (simp_all add: str_def startsWith_def)
    from identifier_columns [of "row_doi (str ''https://doi.org/10.1234/x'')" 0] have
      "truthy (doiField (row_doi (str ''https://doi.org/10.1234/x''))) \<and> startsWith (trim (String_of (doiField (row_doi (str ''https://doi.org/10.1234/x''))))) (str ''https://doi.org/'') \<longrightarrow>
        DOI (createCslItem (row_doi (str ''https://doi.org/10.1234/x'')) 0) = Some (drop 16 (trim (String_of (doiField (row_doi (str ''https://doi.org/10.1234/x'')))))) \<and>
        URL (createCslItem (row_doi (str ''https://doi.org/10.1234/x'')) 0) = (if drop 16 (trim (String_of (doiField (row_doi (str ''https://doi.org/10.1234/x''))))) = [] then (if truthy (urlField (row_doi (str ''https://doi.org/10.1234/x''))) \<and> startsWith (trim (String_of (urlField (row_doi (str ''https://doi.org/10.1234/x''))))) (str ''http'') then Some (trim (String_of (urlField (row_doi (str ''https://doi.org/10.1234/x''))))) else None) else None)"
      unfolding Let_def by blast
    with f t s show ?thesis by (simp add: str_def)
  qed
  have b: "DOI (createCslItem (row_doi (str ''https://example.com/a'')) 0) = None \<and> URL (createCslItem (row_doi (str ''https://example.com/a'')) 0) = Some (str ''https://example.com/a'')"
  proof -
    have f: "doiField (row_doi (str ''https://example.com/a'')) = Some (str ''https://example.com/a'')"
      "urlField (row_doi (str ''https://example.com/a'')) = Some (str ''https://example.org/b'')"
      by (simp_all add: doiField_def urlField_def row_doi_def or_else_def str_def)
    have t: "trim (str ''https://example.com/a'') = str ''https://example.com/a''"
      "trim (str ''https://example.org/b'') = str ''https://example.org/b''"
      by (simp_all add: str_def trim_def is_space_def)
    have s: "startsWith (str ''https://example.com/a'') (str ''http'') \<and> \<not> js_includes (str ''https://example.com/a'') (str ''doi.org/'')"
      "startsWith (str ''https://example.org/b'') (str ''http'')"
      "drop 16 (str ''https://example.com/a'') = str (drop 16 ''https://example.com/a'')"
      "str ''https://example.com/a'' \<noteq> []" "str ''https://example.org/b'' \<noteq> []"
      by (simp_all add: str_def startsWith_def)
    from identifier_columns [of "row_doi (str ''https://example.com/a'')" 0] have
      "truthy (doiField (row_doi (str ''https://example.com/a''))) \<and> startsWith (trim (String_of (doiField (row_doi (str ''https://example.com/a''))))) (str ''http'') \<and> \<not> js_includes (trim (String_of (doiField (row_doi (str ''https://example.com/a''))))) (str ''doi.org/'') \<longrightarrow>
        DOI (createCslItem (row_doi (str ''https://example.com/a'')) 0) = None \<and> URL (createCslItem (row_doi (str ''https://example.com/a'')) 0) = Some (trim (String_of (doiField (row_doi (str ''https://example.com/a'')))))"
      unfolding Let_def by blast
    with f t s show ?thesis by (simp add: str_def)
  qed
  have c: "DOI (createCslItem (row_doi (str ''10.5555/y'')) 0) = Some (str ''10.5555/y'') \<and> URL (createCslItem (row_doi (str ''10.5555/y'')) 0) = None"
  proof -
    have f: "doiField (row_doi (str ''10.5555/y'')) = Some (str ''10.5555/y'')"
      "urlField (row_doi (str ''10.5555/y'')) = Some (str ''https://example.org/b'')"
      by (simp_all add: doiField_def urlField_def row_doi_def or_else_def str_def)
    have t: "trim (str ''10.5555/y'') = str ''10.5555/y''"
      "trim (str ''https://example.org/b'') = str ''https://example.org/b''"
      by (simp_all add: str_def trim_def is_space_def)
    have s: "startsWith (str ''10.5555/y'') (str ''10.'')"
      "startsWith (str ''https://example.org/b'') (str ''http'')"
      "drop 16 (str ''10.5555/y'') = str (drop 16 ''10.5555/y'')"
      "str ''10.5555/y'' \<noteq> []" "str ''https://example.org/b'' \<noteq> []"
      by (simp_all add: str_def startsWith_def)
    from identifier_columns [of "row_doi (str ''10.5555/y'')" 0] have
      "truthy (doiField (row_doi (str ''10.5555/y''))) \<and> startsWith (trim (String_of (doiField (row_doi (str ''10.5555/y''))))) (str ''10.'') \<longrightarrow>
        DOI (createCslItem (row_doi (str ''10.5555/y'')) 0) = Some (trim (String_of (doiField (row_doi (str ''10.5555/y''))))) \<and> URL (createCslItem (row_doi (str ''10.5555/y'')) 0) = None"
      unfolding Let_def by blast
    with f t s show ?thesis by (simp add: str_def)
  qed
  have d: "DOI (createCslItem (row_doi (str ''see publisher'')) 0) = None \<and> URL (createCslItem (row_doi (str ''see publisher'')) 0) = Some (str ''https://example.org/b'')"
  proof -
    have f: "doiField (row_doi (str ''see publisher'')) = Some (str ''see publisher'')"
      "urlField (row_doi (str ''see publisher'')) = Some (str ''https://example.org/b'')"
      by (simp_all add: doiField_def urlField_def row_doi_def or_else_def str_def)
    have t: "trim (str ''see publisher'') = str ''see publisher''"
      "trim (str ''https://example.org/b'') = str ''https://example.org/b''"
      by (simp_all add: str_def trim_def is_space_def)
    have s: "\<not> startsWith (str ''see publisher'') (str ''http'') \<and> \<not> startsWith (str ''see publisher'') (str ''10.'')"
      "startsWith (str ''https://example.org/b'') (str ''http'')"
      "drop 16 (str ''see publisher'') = str (drop 16 ''see publisher'')"
      "str ''see publisher'' \<noteq> []" "str ''https://example.org/b'' \<noteq> []"
      by (simp_all add: str_def startsWith_def)
    from identifier_columns [of "row_doi (str ''see publisher'')" 0] have
      "\<not> truthy (doiField (row_doi (str ''see publisher''))) \<or> (\<not> startsWith (trim (String_of (doiField (row_doi (str ''see publisher''))))) (str ''http'') \<and> \<not> startsWith (trim (String_of (doiField (row_doi (str ''see publisher''))))) (str ''10.'')) \<longrightarrow>
        DOI (createCslItem (row_doi (str ''see publisher'')) 0) = None \<and> URL (createCslItem (row_doi (str ''see publisher'')) 0) = (if truthy (urlField (row_doi (str ''see publisher''))) \<and> startsWith (trim (String_of (urlField (row_doi (str ''see publisher''))))) (str ''http'') then Some (trim (String_of (urlField (row_doi (str ''see publisher''))))) else None)"
      unfolding Let_def by blast
    with f t s show ?thesis by (simp add: str_def)
  qed
  from a b c d show ?thesis by blast
qed
text \<open>
  Claim C7 as stated fails in two places. The tests are made on the trimmed value: a cell
  with a leading space does not start with \<open>http\<close>, yet it is stored as URL and not
  ignored. And the prefix that is stripped is exactly \<open>http://doi.org/\<close> or
  \<open>https://doi.org/\<close>: a value on \<open>dx.doi.org\<close> starts with \<open>http\<close> and contains
  \<open>doi.org/\<close>, and is stored as DOI whole, nothing stripped.
\<close>

theorem identifier_columns_counterexample:
  "\<not> startsWith (str '' https://example.com/a'') (str ''http'') \<and>
   \<not> startsWith (str '' https://example.com/a'') (str ''10.'') \<and>
   doiField (row_doi (str '' https://example.com/a'')) = Some (str '' https://example.com/a'') \<and>
   URL (createCslItem (row_doi (str '' https://example.com/a'')) 0) = Some (str ''https://example.com/a'') \<and>
   startsWith (str ''https://dx.doi.org/10.1234/x'') (str ''http'') \<and>
   js_includes (str ''https://dx.doi.org/10.1234/x'') (str ''doi.org/'') \<and>
   DOI (createCslItem (row_doi (str ''https://dx.doi.org/10.1234/x'')) 0) =
     Some (str ''https://dx.doi.org/10.1234/x'')"
proof -
  have t: "trim (str '' https://example.com/a'') = str ''https://example.com/a''"
    "trim (str ''https://dx.doi.org/10.1234/x'') = str ''https://dx.doi.org/10.1234/x''"
    by (simp_all add: str_def trim_def is_space_def)
  have s: "\<not> startsWith (str '' https://example.com/a'') (str ''http'')"
    "\<not> startsWith (str '' https://example.com/a'') (str ''10.'')"
    "startsWith (str ''https://example.com/a'') (str ''http'')"
    "\<not> js_includes (str ''https://example.com/a'') (str ''doi.org/'')"
    "startsWith (str ''https://dx.doi.org/10.1234/x'') (str ''http'')"
    "js_includes (str ''https://dx.doi.org/10.1234/x'') (str ''doi.org/'')"
    "\<not> startsWith (str ''https://dx.doi.org/10.1234/x'') (str ''https://doi.org/'')"
    "\<not> startsWith (str ''https://dx.doi.org/10.1234/x'') (str ''http://doi.org/'')"
    by (simp_all add: str_def startsWith_def)
  have f: "doiField (row_doi (str '' https://example.com/a'')) = Some (str '' https://example.com/a'')"
    "doiField (row_doi (str ''https://dx.doi.org/10.1234/x'')) = Some (str ''https://dx.doi.org/10.1234/x'')"
    by (simp_all add: doiField_def urlField_def row_doi_def or_else_def str_def)
  have ne: "str '' https://example.com/a'' \<noteq> []" "str ''https://dx.doi.org/10.1234/x'' \<noteq> []"
    "str ''https://example.com/a'' \<noteq> []"
    by (simp_all add: str_def)
  note fields = createCslItem_identifier set_doi_fields [OF set_steps_identifier(15,16)]
  have u: "URL (createCslItem (row_doi (str '' https://example.com/a'')) 0) = Some (str ''https://example.com/a'')"
    using s(3,4) ne by (simp add: fields f t)
  have x: "DOI (createCslItem (row_doi (str ''https://dx.doi.org/10.1234/x'')) 0) =
     Some (str ''https://dx.doi.org/10.1234/x'')"
    using s(5-8) ne by (simp add: fields f t strip_doi_org_eq)
  from s(1,2,5,6) f(1) u x show ?thesis by blast
qed

section \<open>Properties of \<open>validateCslItems\<close>\<close>

lemma itemErrors_empty_iff: "itemErrors i item = [] \<longleftrightarrow> \<not> rejected item"
  by (auto simp add: itemErrors_def rejected_def)

lemma validate_fold:
  "foldl validate_step (v, e) (enumerate n items) =
     (v @ filter (\<lambda>item. \<not> rejected item) items,
      e @ concat (map (\<lambda>(i, item). itemErrors i item) (enumerate n items)))"
proof (induction items arbitrary: v e n)
  case Nil
  then show ?case by simp
next
  case (Cons item items)
  show ?case
    using Cons.IH [of _ _ "Suc n"]
    by (simp add: validate_step_def itemErrors_empty_iff)
qed

lemma itemErrors_prefixed:
  "itemErrors i item = map (\<lambda>message. item_prefix (i + 1) @ message) (violated_rules item)"
  by (simp add: itemErrors_def violated_rules_def item_prefix_def str_def)

text \<open>
  Claim C3. \<open>validateCslItems\<close> keeps exactly the items that are not rejected, in their
  original order, where an item is rejected if and only if it has neither title nor author
  or is a journal article without container title (having a field is being truthy: a
  non-empty title or container title, an author list even when empty). The error list
  holds, item by item in the original order, one message per violated rule of each
  rejected item, each message prefixed with \<open>Item n: \<close> for the 1-based position \<open>n\<close>
  of the item.
\<close>

theorem validateCslItems_partition:
  "validateCslItems items =
     (filter (\<lambda>item. \<not> rejected item) items,
      concat (map (\<lambda>(i, item). map (\<lambda>message. item_prefix (i + 1) @ message) (violated_rules item))
                (enumerate 0 items)))
   \<and> (\<forall>item. rejected item \<longleftrightarrow> violated_rules item \<noteq> [])"
  by (simp add: validateCslItems_def validate_fold itemErrors_prefixed rejected_def violated_rules_def)

theorem validateCslItems_partition_witness:
  "validateCslItems
     [blank_item, blank_item\<lparr>title := Some (str ''T''), item_type := TypeName (str ''book'')\<rparr>,
      blank_item\<lparr>title := Some (str ''U'')\<rparr>,
      blank_item\<lparr>title := Some [], author := Some [], item_type := TypeName (str ''book'')\<rparr>,
      blank_item\<lparr>title := Some [], item_type := TypeName (str ''book'')\<rparr>] =
     ([blank_item\<lparr>title := Some (str ''T''), item_type := TypeName (str ''book'')\<rparr>,
       blank_item\<lparr>title := Some [], author := Some [], item_type := TypeName (str ''book'')\<rparr>],
      [str ''Item 1: Missing both title and author'',
       str ''Item 1: Journal articles require a journal name'',
       str ''Item 3: Journal articles require a journal name'',
       str ''Item 5: Missing both title and author''])"
  using validateCslItems_partition
    [of "[blank_item, blank_item\<lparr>title := Some (str ''T''), item_type := TypeName (str ''book'')\<rparr>,
          blank_item\<lparr>title := Some (str ''U'')\<rparr>,
          blank_item\<lparr>title := Some [], author := Some [], item_type := TypeName (str ''book'')\<rparr>,
          blank_item\<lparr>title := Some [], item_type := TypeName (str ''book'')\<rparr>]"]
  by (simp add: rejected_def violated_rules_def item_prefix_def blank_item_def str_def
      string_of_nat.simps enumerate_eq_zip upt_rec)

section \<open>Properties of \<open>handleGeneration\<close>\<close>

lemma string_of_nat_nonempty: "string_of_nat n \<noteq> []"
  by (subst string_of_nat.simps) simp

lemma string_of_nat_inj: "string_of_nat m = string_of_nat n \<Longrightarrow> m = n"
proof (induction m arbitrary: n rule: string_of_nat.induct)
  case (1 m)
  show ?case
  proof (cases "m < 10")
    case True
    show ?thesis
    proof (cases "n < 10")
      case nlt: True
      with True "1.prems" show ?thesis
        by (simp add: string_of_nat.simps [of m] string_of_nat.simps [of n])
    next
      case False
      with True "1.prems" string_of_nat_nonempty [of "n div 10"] show ?thesis
        by (simp add: string_of_nat.simps [of m] string_of_nat.simps [of n])
    qed
  next
    case False
    show ?thesis
    proof (cases "n < 10")
      case True
      with False "1.prems" string_of_nat_nonempty [of "m div 10"] show ?thesis
        by (simp add: string_of_nat.simps [of m] string_of_nat.simps [of n])
    next
      case nge: False
      with False "1.prems" have
        eq: "string_of_nat (m div 10) = string_of_nat (n div 10)" "m mod 10 = n mod 10"
        by (simp_all add: string_of_nat.simps [of m] string_of_nat.simps [of n])
      from "1.IH" [OF False eq(1)] have "m div 10 = n div 10" .
      with eq(2) show ?thesis by (metis div_mult_mod_eq)
    qed
  qed
qed

lemma set_steps_id:
  "item_id (set_title row item) = item_id item"
  "item_id (set_author row item) = item_id item"
  "item_id (set_issued row item) = item_id item"
  "item_id (set_container_title row item) = item_id item"
  "item_id (set_volume_issue row item) = item_id item"
  "item_id (set_page row item) = item_id item"
  "item_id (set_doi row item) = item_id item"
  "item_id (set_url row item) = item_id item"
  "item_id (set_publisher row item) = item_id item"
  by (simp_all add: set_publisher_def set_url_def set_doi_def set_page_def
      set_volume_issue_def set_container_title_def set_issued_def set_author_def
      set_title_def Let_def)

lemma createCslItem_id:
  "item_id (createCslItem row index) = str ''item_'' @ string_of_nat (index + 1)"
  by (simp add: createCslItem_def set_steps_id new_item_def)

lemma find_by_key:
  "distinct (map f xs) \<Longrightarrow> i < length xs \<Longrightarrow> find (\<lambda>x. f x = f (xs ! i)) xs = Some (xs ! i)"
proof (induction xs arbitrary: i)
  case Nil
  then show ?case by simp
next
  case (Cons x xs)
  show ?case
  proof (cases i)
    case 0
    then show ?thesis by simp
  next
    case (Suc k)
    with Cons.prems have k: "k < length xs" and "f (xs ! k) \<in> set (map f xs)" by auto
    with Cons.prems(1) have "f x \<noteq> f (xs ! k)" by auto
    with Cons.IH [of k] Cons.prems(1) k Suc show ?thesis by simp
  qed
qed

lemma findIndex_filter:
  "distinct (map f xs) \<Longrightarrow> i < length xs \<Longrightarrow>
     findIndex (\<lambda>v. f v = f (xs ! i)) (filter P xs) =
       (if P (xs ! i) then Some (length (filter P (take i xs))) else None)"
proof (induction xs arbitrary: i)
  case Nil
  then show ?case by simp
next
  case (Cons x xs)
  show ?case
  proof (cases i)
    case 0
    have "findIndex (\<lambda>v. f v = f x) (filter P xs) = None"
      using Cons.prems(1)
    proof (induction xs)
      case Nil
      then show ?case by simp
    next
      case (Cons y ys)
      then show ?case by auto
    qed
    with 0 show ?thesis by simp
  next
    case (Suc k)
    with Cons.prems have k: "k < length xs" and "f (xs ! k) \<in> set (map f xs)" by auto
    with Cons.prems(1) have ne: "f x \<noteq> f (xs ! k)" by auto
    from Cons.IH [of k] Cons.prems(1) k have
      "findIndex (\<lambda>v. f v = f (xs ! k)) (filter P xs) =
         (if P (xs ! k) then Some (length (filter P (take k xs))) else None)" by simp
    with ne Suc show ?thesis by simp
  qed
qed

lemma createCslItem_row_blank:
  "createCslItem row_blank i = blank_item\<lparr>item_id := str ''item_'' @ string_of_nat (i + 1)\<rparr>"
  by (simp add: row_blank_def blank_item_def createCslItem_def new_item_def set_title_def set_author_def set_issued_def
  set_container_title_def set_volume_issue_def set_page_def set_doi_def set_url_def
  set_publisher_def or_else_def parseAuthors_def mapSourceType_def parseVolumeIssue_def)

lemma createCslItem_row_titled:
  "createCslItem row_titled i =
     blank_item\<lparr>item_id := str ''item_'' @ string_of_nat (i + 1),
                 item_type := TypeName (str ''book''), title := Some (str ''T'')\<rparr>"
  by (simp add: row_titled_def blank_item_def createCslItem_def new_item_def set_title_def set_author_def set_issued_def
  set_container_title_def set_volume_issue_def set_page_def set_doi_def set_url_def
  set_publisher_def or_else_def parseAuthors_def mapSourceType_def parseVolumeIssue_def
  mapping_def toLowerCase_def lower_unit_def trim_def is_space_def str_def)
lemma build_items_length: "length (build_items rows) = length rows"
  by (simp add: build_items_def)

lemma build_items_nth:
  "i < length rows \<Longrightarrow> build_items rows ! i = createCslItem (rows ! i) i"
  by (simp add: build_items_def nth_enumerate_eq)

lemma build_items_distinct: "distinct (map item_id (build_items rows))"
proof -
  have "item_id (build_items rows ! i) \<noteq> item_id (build_items rows ! j)"
    if "i < length rows" "j < length rows" "i \<noteq> j" for i j
    using that string_of_nat_inj [of "i + 1" "j + 1"]
    by (auto simp: build_items_nth createCslItem_id)
  then show ?thesis
    by (simp add: distinct_conv_nth build_items_length)
qed

lemma valid_items: "fst (validateCslItems items) = filter (\<lambda>item. \<not> rejected item) items"
  by (simp add: validateCslItems_def validate_fold)

lemma validation_errors:
  "snd (validateCslItems items) =
     concat (map (\<lambda>(i, item). itemErrors i item) (enumerate 0 items))"
  by (simp add: validateCslItems_def validate_fold)

lemma position_in_filter:
  "i < length xs \<Longrightarrow> P (xs ! i) \<Longrightarrow>
     length (filter P (take i xs)) < length (filter P xs) \<and>
     filter P xs ! length (filter P (take i xs)) = xs ! i"
proof -
  assume i: "i < length xs" and p: "P (xs ! i)"
  have "xs = take i xs @ xs ! i # drop (Suc i) xs"
    using i by (simp add: id_take_nth_drop)
  then have "filter P xs = filter P (take i xs) @ xs ! i # filter P (drop (Suc i) xs)"
    using p by (metis filter.simps(2) filter_append)
  then show ?thesis by (simp add: nth_append)
qed

lemma final_row_column:
  assumes "i < length rows"
  shows "final_row (build_items rows) (filter (\<lambda>item. \<not> rejected item) (build_items rows)) cites
           (i, rows ! i) =
         (rows ! i)(str ''APA 7 Citation'' \<mapsto>
           (if rejected (build_items rows ! i) then str ''Skipped due to validation errors.''
            else String_of (or_else
                   (nth_opt cites
                      (length (filter (\<lambda>item. \<not> rejected item) (take i (build_items rows)))))
                   (Some (str ''Error: Could not generate citation.'')))))"
proof -
  have i': "i < length (build_items rows)" using assms by (simp add: build_items_length)
  have key: "str ''item_'' @ string_of_nat (i + 1) = item_id (build_items rows ! i)"
    using assms by (simp add: build_items_nth createCslItem_id)
  have f: "find (\<lambda>csl. item_id csl = str ''item_'' @ string_of_nat (i + 1)) (build_items rows) =
      Some (build_items rows ! i)"
    unfolding key by (rule find_by_key [OF build_items_distinct i'])
  have g: "findIndex (\<lambda>validItem. item_id validItem = item_id (build_items rows ! i))
        (filter (\<lambda>item. \<not> rejected item) (build_items rows)) =
      (if \<not> rejected (build_items rows ! i)
       then Some (length (filter (\<lambda>item. \<not> rejected item) (take i (build_items rows)))) else None)"
    using findIndex_filter [OF build_items_distinct i', of "\<lambda>item. \<not> rejected item"] by simp
  from f have f': "find (\<lambda>csl. item_id csl = str ''item_'' @ string_of_nat (Suc i)) (build_items rows) =
      Some (build_items rows ! i)" by simp
  show ?thesis
    unfolding final_row_def by (simp add: f' g Let_def)
qed

lemma generation_completes:
  assumes "fst (validateCslItems (build_items jsonData)) \<noteq> []"
  shows "generation (Inr (jsonData, cslStyle, enLocale)) generateCitations =
     Inr \<lparr>success = length (fst (generateCitations (fst (validateCslItems (build_items jsonData))) cslStyle enLocale)) > 0,
          citations = fst (generateCitations (fst (validateCslItems (build_items jsonData))) cslStyle enLocale),
          errors = snd (validateCslItems (build_items jsonData)) @
                   snd (generateCitations (fst (validateCslItems (build_items jsonData))) cslStyle enLocale),
          warnings =
            (if length (fst (validateCslItems (build_items jsonData))) < length (build_items jsonData)
             then [string_of_nat (length (build_items jsonData) - length (build_items jsonData)) @
                   str '' items were skipped due to validation errors'']
             else []),
          csvData = map (final_row (build_items jsonData) (fst (validateCslItems (build_items jsonData)))
                      (fst (generateCitations (fst (validateCslItems (build_items jsonData))) cslStyle enLocale)))
                    (enumerate 0 jsonData)\<rparr>"
  using assms by (simp add: generation_def Let_def)

lemma handleGeneration_runs:
  assumes "gsheetUrl inp \<noteq> [] \<or> csvFile inp" and "librariesLoaded inp"
  shows "handleGeneration inp generateCitations previous =
     (case generation (awaited_data inp) generateCitations of
        Inr r \<Rightarrow> Some r
      | Inl e \<Rightarrow>
          Some \<lparr>success = False, citations = [],
                errors = [case e of Error message \<Rightarrow> message
                          | NotAnError \<Rightarrow> str ''Unknown error occurred''],
                warnings = [], csvData = []\<rparr>)"
  using assms by (auto simp add: handleGeneration_def Let_def split: sum.splits)
lemma createCslItem_row_cited:
  "createCslItem row_cited i =
     blank_item\<lparr>item_id := str ''item_'' @ string_of_nat (i + 1),
                 item_type := TypeName (str ''book''), title := Some (str ''T'')\<rparr>"
  by (simp add: row_cited_def blank_item_def createCslItem_def new_item_def set_title_def set_author_def set_issued_def
  set_container_title_def set_volume_issue_def set_page_def set_doi_def set_url_def
  set_publisher_def or_else_def parseAuthors_def mapSourceType_def parseVolumeIssue_def
  mapping_def toLowerCase_def lower_unit_def trim_def is_space_def str_def)

lemmas eval_rows =
  build_items_def createCslItem_row_blank createCslItem_row_titled createCslItem_row_cited
  valid_items rejected_def blank_item_def enumerate_eq_zip upt_rec str_def

text \<open>
  Claim C9. In every run that starts, receives its rows and finds no valid item, the
  handler leaves the failure record: \<open>success\<close> is false, \<open>citations\<close> is the
  empty list (present, not undefined), and the error list holds the message of the
  "no valid items" error.
\<close>

theorem no_valid_items_fails:
  assumes "gsheetUrl inp \<noteq> [] \<or> csvFile inp" and "librariesLoaded inp"
    and "awaited_data inp = Inr (jsonData, cslStyle, enLocale)"
    and "fst (validateCslItems (build_items jsonData)) = []"
  shows "handleGeneration inp generateCitations previous =
           Some \<lparr>success = False, citations = [],
                 errors = [str ''No valid citation items found. Please check your data format.''],
                 warnings = [], csvData = []\<rparr>"
  using assms(3,4) by (simp add: handleGeneration_runs [OF assms(1,2)] generation_def)

theorem no_valid_items_fails_witness:
  "handleGeneration (run_on [row_blank, row_blank]) (render_fixed [str ''C'']) None =
     Some \<lparr>success = False, citations = [],
           errors = [str ''No valid citation items found. Please check your data format.''],
           warnings = [], csvData = []\<rparr>"
proof -
  have "fst (validateCslItems (build_items [row_blank, row_blank])) = []"
    by (simp add: eval_rows)
  then show ?thesis
    by (intro no_valid_items_fails [where jsonData = "[row_blank, row_blank]"])
       (simp_all add: run_on_def)
qed

text \<open>
  Claim C2, as amended. In every run that completes (it starts, receives its rows and
  finds a valid item), the final rows are as many as the input rows, and each of them is
  the input row at the same position with the column \<open>APA 7 Citation\<close> set to a citation
  text: every other column is unchanged, and a column of that name which the input row
  already has is replaced, not kept.
\<close>

theorem final_rows_keep_every_row:
  assumes "gsheetUrl inp \<noteq> [] \<or> csvFile inp" and "librariesLoaded inp"
    and "awaited_data inp = Inr (jsonData, cslStyle, enLocale)"
    and "fst (validateCslItems (build_items jsonData)) \<noteq> []"
  shows "\<exists>r. handleGeneration inp generateCitations previous = Some r \<and>
           length (csvData r) = length jsonData \<and>
           (\<forall>i<length jsonData.
              \<exists>citation. csvData r ! i = (jsonData ! i)(str ''APA 7 Citation'' \<mapsto> citation))"
proof -
  define valid where "valid = fst (validateCslItems (build_items jsonData))"
  define cites where "cites = fst (generateCitations valid cslStyle enLocale)"
  define rows where "rows = map (final_row (build_items jsonData) valid cites) (enumerate 0 jsonData)"
  from generation_completes [OF assms(4), of cslStyle enLocale generateCitations] obtain r where
    r: "generation (Inr (jsonData, cslStyle, enLocale)) generateCitations = Inr r"
       "csvData r = rows"
    by (simp add: rows_def cites_def valid_def)
  have h: "handleGeneration inp generateCitations previous = Some r"
    by (simp add: handleGeneration_runs [OF assms(1,2)] assms(3) r(1))
  have "\<exists>citation. rows ! i = (jsonData ! i)(str ''APA 7 Citation'' \<mapsto> citation)"
    if "i < length jsonData" for i
    using that final_row_column [OF that, of cites]
    by (auto simp add: rows_def valid_def valid_items nth_enumerate_eq)
  with h r(2) show ?thesis by (simp add: rows_def)
qed

theorem final_rows_keep_every_row_witness:
  "\<exists>r. handleGeneration (run_on [row_blank, row_titled]) (render_fixed [str ''C'']) None = Some r \<and>
       length (csvData r) = 2 \<and>
       (\<exists>citation. csvData r ! 0 = row_blank(str ''APA 7 Citation'' \<mapsto> citation)) \<and>
       (\<exists>citation. csvData r ! 1 = row_titled(str ''APA 7 Citation'' \<mapsto> citation))"
proof -
  have v: "fst (validateCslItems (build_items [row_blank, row_titled])) \<noteq> []"
    by (simp add: eval_rows)
  from final_rows_keep_every_row [of "run_on [row_blank, row_titled]" "[row_blank, row_titled]" "[]" "[]"
      "render_fixed [str ''C'']" None] v
  obtain r where r: "handleGeneration (run_on [row_blank, row_titled]) (render_fixed [str ''C'']) None = Some r"
    "length (csvData r) = 2"
    "\<forall>i<2. \<exists>citation. csvData r ! i = ([row_blank, row_titled] ! i)(str ''APA 7 Citation'' \<mapsto> citation)"
    by (auto simp add: run_on_def)
  from r(3) have "\<exists>citation. csvData r ! 0 = row_blank(str ''APA 7 Citation'' \<mapsto> citation)"
    "\<exists>citation. csvData r ! 1 = row_titled(str ''APA 7 Citation'' \<mapsto> citation)"
    by (auto simp add: less_Suc_eq numeral_2_eq_2)
  with r(1,2) show ?thesis by blast
qed

text \<open>
  Claim C2 as stated fails on a row that already has a column \<open>APA 7 Citation\<close>: its
  value \<open>old\<close> is replaced by the new citation, and the output row has the same columns
  as the input row, none appended.
\<close>

theorem final_rows_overwrite_counterexample:
  "map_option csvData
     (handleGeneration (run_on [row_cited]) (render_fixed [str ''new'']) None) =
     Some [row_cited(str ''APA 7 Citation'' \<mapsto> str ''new'')] \<and>
   row_cited (str ''APA 7 Citation'') = Some (str ''old'') \<and>
   str ''old'' \<noteq> str ''new'' \<and>
   dom (row_cited(str ''APA 7 Citation'' \<mapsto> str ''new'')) = dom row_cited"
proof -
  have v: "fst (validateCslItems (build_items [row_cited])) \<noteq> []"
    by (simp add: eval_rows)
  have "map_option csvData
     (handleGeneration (run_on [row_cited]) (render_fixed [str ''new'']) None) =
     Some [row_cited(str ''APA 7 Citation'' \<mapsto> str ''new'')]"
    using v final_row_column [of 0 "[row_cited]" "[str ''new'']"]
    apply (simp add: handleGeneration_def run_on_def generation_completes [OF v] render_fixed_def)
    apply (simp add: eval_rows nth_opt_def or_else_def)
    done
  moreover have "row_cited (str ''APA 7 Citation'') = Some (str ''old'')"
    by (simp add: row_cited_def)
  moreover have "str ''old'' \<noteq> str ''new''" by (simp add: str_def)
  moreover have "dom (row_cited(str ''APA 7 Citation'' \<mapsto> str ''new'')) = dom row_cited"
    by (auto simp add: row_cited_def)
  ultimately show ?thesis by blast
qed
text \<open>
  Claim C1, as amended. In every run that completes, the row of an item that the
  validator did not return as valid has the citation column
  \<open>Skipped due to validation errors.\<close>; the row of an item that is the \<open>k\<close>-th valid
  item has the \<open>k\<close>-th rendered citation when the renderer returned one there and it is
  not empty, and \<open>Error: Could not generate citation.\<close> otherwise.
\<close>

theorem final_rows_citation_column:
  assumes "gsheetUrl inp \<noteq> [] \<or> csvFile inp" and "librariesLoaded inp"
    and "awaited_data inp = Inr (jsonData, cslStyle, enLocale)"
    and "fst (validateCslItems (build_items jsonData)) \<noteq> []"
    and "i < length jsonData"
  shows "\<exists>r. handleGeneration inp generateCitations previous = Some r \<and>
           citations r =
             fst (generateCitations (fst (validateCslItems (build_items jsonData))) cslStyle enLocale) \<and>
           (createCslItem (jsonData ! i) i \<notin> set (fst (validateCslItems (build_items jsonData))) \<longrightarrow>
              (csvData r ! i) (str ''APA 7 Citation'') =
                Some (str ''Skipped due to validation errors.'')) \<and>
           (createCslItem (jsonData ! i) i \<in> set (fst (validateCslItems (build_items jsonData))) \<longrightarrow>
              (\<exists>k<length (fst (validateCslItems (build_items jsonData))).
                  fst (validateCslItems (build_items jsonData)) ! k = createCslItem (jsonData ! i) i \<and>
                  (csvData r ! i) (str ''APA 7 Citation'') =
                    Some (case nth_opt (citations r) k of
                            None \<Rightarrow> str ''Error: Could not generate citation.''
                          | Some c \<Rightarrow>
                              if c = [] then str ''Error: Could not generate citation.'' else c)))"
proof -
  define items where "items = build_items jsonData"
  define valid where "valid = fst (validateCslItems items)"
  define cites where "cites = fst (generateCitations valid cslStyle enLocale)"
  define k where "k = length (filter (\<lambda>item. \<not> rejected item) (take i items))"
  have valid_eq: "valid = filter (\<lambda>item. \<not> rejected item) items"
    by (simp add: valid_def valid_items)
  have i': "i < length items" and item: "items ! i = createCslItem (jsonData ! i) i"
    using assms(5) by (simp_all add: items_def build_items_length build_items_nth)
  from generation_completes [OF assms(4), of cslStyle enLocale generateCitations] obtain r where
    r: "generation (Inr (jsonData, cslStyle, enLocale)) generateCitations = Inr r"
       "csvData r = map (final_row items valid cites) (enumerate 0 jsonData)"
       "citations r = cites"
    by (simp add: cites_def valid_def items_def)
  have h: "handleGeneration inp generateCitations previous = Some r"
    by (simp add: handleGeneration_runs [OF assms(1,2)] assms(3) r(1))
  have row: "csvData r ! i =
      (jsonData ! i)(str ''APA 7 Citation'' \<mapsto>
         (if rejected (items ! i) then str ''Skipped due to validation errors.''
          else String_of (or_else (nth_opt cites k)
                 (Some (str ''Error: Could not generate citation.'')))))"
    using assms(5) final_row_column [OF assms(5), of cites]
    by (simp add: r(2) valid_eq items_def k_def nth_enumerate_eq)
  have mem: "items ! i \<in> set valid \<longleftrightarrow> \<not> rejected (items ! i)"
    using i' by (auto simp add: valid_eq)
  have skipped: "(csvData r ! i) (str ''APA 7 Citation'') =
      Some (str ''Skipped due to validation errors.'')" if "items ! i \<notin> set valid"
    using that mem row by simp
  have cited: "\<exists>k<length valid. valid ! k = items ! i \<and>
      (csvData r ! i) (str ''APA 7 Citation'') =
        Some (case nth_opt cites k of
                None \<Rightarrow> str ''Error: Could not generate citation.''
              | Some c \<Rightarrow> if c = [] then str ''Error: Could not generate citation.'' else c)"
    if "items ! i \<in> set valid"
  proof -
    from that mem have ok: "\<not> rejected (items ! i)" by simp
    from position_in_filter [OF i', of "\<lambda>item. \<not> rejected item"] ok
    have "k < length valid" "valid ! k = items ! i" by (simp_all add: valid_eq k_def)
    moreover have "(csvData r ! i) (str ''APA 7 Citation'') =
        Some (case nth_opt cites k of
                None \<Rightarrow> str ''Error: Could not generate citation.''
              | Some c \<Rightarrow> if c = [] then str ''Error: Could not generate citation.'' else c)"
      using ok row by (simp add: or_else_def split: option.splits)
    ultimately show ?thesis by blast
  qed
  from h r(3) skipped cited show ?thesis
    by (simp add: item [symmetric] valid_def [symmetric] items_def [symmetric] cites_def [symmetric])
qed


theorem final_rows_citation_column_witness:
  "\<exists>r. handleGeneration (run_on [row_blank, row_titled]) (render_fixed [str ''C'']) None = Some r \<and>
       (csvData r ! 0) (str ''APA 7 Citation'') = Some (str ''Skipped due to validation errors.'') \<and>
       (csvData r ! Suc 0) (str ''APA 7 Citation'') = Some (str ''C'')"
proof -
  let ?rows = "[row_blank, row_titled]"
  let ?valid = "fst (validateCslItems (build_items ?rows))"
  have a1: "gsheetUrl (run_on ?rows) \<noteq> [] \<or> csvFile (run_on ?rows)"
    and a2: "librariesLoaded (run_on ?rows)"
    and a3: "awaited_data (run_on ?rows) = Inr (?rows, [], [])"
    by (simp_all add: run_on_def)
  have v: "?valid = [createCslItem row_titled (Suc 0)]"
    by (simp add: eval_rows)
  then have a4: "?valid \<noteq> []" by simp
  have m0: "createCslItem row_blank 0 \<notin> set ?valid"
    unfolding v by (simp add: eval_rows string_of_nat.simps)
  have m1: "createCslItem row_titled (Suc 0) \<in> set ?valid"
    unfolding v by simp
  have a5: "0 < length ?rows" and a6: "Suc 0 < length ?rows" by simp_all
  from final_rows_citation_column [OF a1 a2 a3 a4 a5, of "render_fixed [str ''C'']" None,
      unfolded nth_Cons_0] m0
  obtain r where r: "handleGeneration (run_on ?rows) (render_fixed [str ''C'']) None = Some r"
    and c0: "(csvData r ! 0) (str ''APA 7 Citation'') = Some (str ''Skipped due to validation errors.'')"
    by blast
  from final_rows_citation_column [OF a1 a2 a3 a4 a6, of "render_fixed [str ''C'']" None,
      unfolded nth_Cons_Suc nth_Cons_0] m1
  obtain r' k where r': "handleGeneration (run_on ?rows) (render_fixed [str ''C'']) None = Some r'"
    and cs: "citations r' = fst (render_fixed [str ''C''] ?valid [] [])"
    and k: "k < length ?valid"
    and c1: "(csvData r' ! Suc 0) (str ''APA 7 Citation'') =
        Some (case nth_opt (citations r') k of
                None \<Rightarrow> str ''Error: Could not generate citation.''
              | Some c \<Rightarrow> if c = [] then str ''Error: Could not generate citation.'' else c)"
    by blast
  from r r' have same: "r' = r" by simp
  from k have k0: "k = 0" unfolding v by simp
  from cs have "citations r' = [str ''C'']" by (simp add: render_fixed_def)
  with c1 k0 have "(csvData r' ! Suc 0) (str ''APA 7 Citation'') = Some (str ''C'')"
    by (simp add: nth_opt_def str_def)
  with r c0 same show ?thesis by blast
qed

text \<open>
  Claim C1 as stated fails when the renderer returns no citation for a valid item (its
  engine failed, \<open>citations: []\<close>) or an empty one: the row of the valid item then has the
  fixed error text, which is not a rendered citation.
\<close>

theorem final_rows_error_text_counterexample:
  "fst (validateCslItems (build_items [row_titled])) = build_items [row_titled] \<and>
   handleGeneration (run_on [row_titled]) engine_fails None =
     Some \<lparr>success = False, citations = [],
           errors = [str ''Citation generation failed: Error: no engine''], warnings = [],
           csvData = [row_titled(str ''APA 7 Citation'' \<mapsto> str ''Error: Could not generate citation.'')]\<rparr> \<and>
   handleGeneration (run_on [row_titled]) (render_fixed [str '''']) None =
     Some \<lparr>success = True, citations = [str ''''], errors = [], warnings = [],
           csvData = [row_titled(str ''APA 7 Citation'' \<mapsto> str ''Error: Could not generate citation.'')]\<rparr> \<and>
   str ''Error: Could not generate citation.'' \<noteq> str ''''"
proof -
  have v: "fst (validateCslItems (build_items [row_titled])) = build_items [row_titled]"
    by (simp add: eval_rows)
  have ne: "fst (validateCslItems (build_items [row_titled])) \<noteq> []"
    by (simp add: eval_rows)
  have e: "snd (validateCslItems (build_items [row_titled])) = []"
    by (simp add: validation_errors itemErrors_def build_items_def createCslItem_row_titled
        blank_item_def str_def)
  have a: "handleGeneration (run_on [row_titled]) engine_fails None =
     Some \<lparr>success = False, citations = [],
           errors = [str ''Citation generation failed: Error: no engine''], warnings = [],
           csvData = [row_titled(str ''APA 7 Citation'' \<mapsto> str ''Error: Could not generate citation.'')]\<rparr>"
    using final_row_column [of 0 "[row_titled]" "[]"]
    apply (simp add: handleGeneration_def run_on_def generation_completes [OF ne] engine_fails_def e)
    apply (simp add: eval_rows nth_opt_def or_else_def)
    done
  have b: "handleGeneration (run_on [row_titled]) (render_fixed [str '''']) None =
     Some \<lparr>success = True, citations = [str ''''], errors = [], warnings = [],
           csvData = [row_titled(str ''APA 7 Citation'' \<mapsto> str ''Error: Could not generate citation.'')]\<rparr>"
    using final_row_column [of 0 "[row_titled]" "[str '''']"]
    apply (simp add: handleGeneration_def run_on_def generation_completes [OF ne] render_fixed_def e)
    apply (simp add: eval_rows nth_opt_def or_else_def)
    done
  have "str ''Error: Could not generate citation.'' \<noteq> str ''''" by (simp add: str_def)
  with v a b show ?thesis by blast
qed

section \<open>The handler of the second copy\<close>

text \<open>
  The second copy keeps every row as well. It has no sentinel: after a rejected row the
  citations are attached one row too early, and the count of its warning is the number of
  skipped items.
\<close>

lemma createCslItem_part_000_rows:
  "createCslItem_part_000 row_blank i = blank_item\<lparr>item_id := str ''item_'' @ string_of_nat (i + 1)\<rparr>"
  "createCslItem_part_000 row_titled i =
     blank_item\<lparr>item_id := str ''item_'' @ string_of_nat (i + 1),
                 item_type := TypeName (str ''book''), title := Some (str ''T'')\<rparr>"
  by (simp_all add: createCslItem_part_000_def row_blank_def row_titled_def blank_item_def
      or_else_def parseAuthors_def mapSourceType_def parseVolumeIssue_def mapping_def
      toLowerCase_def lower_unit_def trim_def is_space_def str_def Let_def)

lemma part_000_keeps_every_row:
  assumes "generation_part_000 (Inr (jsonData, cslStyle, enLocale)) generateCitations = Inr r"
  shows "length (csvData r) = length jsonData"
    and "i < length jsonData \<Longrightarrow>
           \<exists>citation. csvData r ! i = (jsonData ! i)(str ''APA 7 Citation'' \<mapsto> citation)"
proof -
  from assms have c: "csvData r =
      map (final_row_part_000
             (fst (generateCitations
                (fst (validateCslItems (build_items_part_000 jsonData))) cslStyle enLocale)))
        (enumerate 0 jsonData)"
    by (auto simp add: generation_part_000_def Let_def split: if_splits)
  show "length (csvData r) = length jsonData" by (simp add: c)
  show "\<exists>citation. csvData r ! i = (jsonData ! i)(str ''APA 7 Citation'' \<mapsto> citation)"
    if "i < length jsonData"
    using that by (auto simp add: c nth_enumerate_eq final_row_part_000_def)
qed

lemma part_000_by_row_position:
  "handleGeneration_part_000 (run_on [row_blank, row_titled]) (render_fixed [str ''C'']) None =
     Some \<lparr>success = True, citations = [str ''C''],
           errors = [str ''Item 1: Missing both title and author'',
                     str ''Item 1: Journal articles require a journal name''],
           warnings = [str ''1 items were skipped due to validation errors''],
           csvData = [row_blank(str ''APA 7 Citation'' \<mapsto> str ''C''),
                      row_titled(str ''APA 7 Citation'' \<mapsto> str ''Error: Could not generate citation.'')]\<rparr>"
proof -
  have items: "build_items_part_000 [row_blank, row_titled] =
      [createCslItem_part_000 row_blank 0, createCslItem_part_000 row_titled (Suc 0)]"
    by (simp add: build_items_part_000_def enumerate_eq_zip upt_rec)
  have v: "fst (validateCslItems [createCslItem_part_000 row_blank 0, createCslItem_part_000 row_titled (Suc 0)]) =
      [createCslItem_part_000 row_titled (Suc 0)]"
    by (simp add: valid_items createCslItem_part_000_rows rejected_def blank_item_def str_def)
  have e: "snd (validateCslItems [createCslItem_part_000 row_blank 0, createCslItem_part_000 row_titled (Suc 0)]) =
      [str ''Item 1: Missing both title and author'',
       str ''Item 1: Journal articles require a journal name'']"
    by (simp add: validation_errors itemErrors_def createCslItem_part_000_rows blank_item_def
        str_def string_of_nat.simps enumerate_eq_zip upt_rec)
  show ?thesis
    by (simp add: handleGeneration_part_000_def generation_part_000_def run_on_def items v e
        render_fixed_def Let_def)
       (simp add: final_row_part_000_def nth_opt_def or_else_def string_of_nat.simps str_def
        enumerate_eq_zip upt_rec)
qed

section \<open>The warning about skipped items\<close>

lemma generation_part_000_completes:
  assumes "fst (validateCslItems (build_items_part_000 jsonData)) \<noteq> []"
  shows "map_sum id warnings (generation_part_000 (Inr (jsonData, cslStyle, enLocale)) generateCitations) =
     Inr (if length (fst (validateCslItems (build_items_part_000 jsonData))) <
               length (build_items_part_000 jsonData)
          then [string_of_nat (length (build_items_part_000 jsonData) -
                               length (fst (validateCslItems (build_items_part_000 jsonData)))) @
                str '' items were skipped due to validation errors'']
          else [])"
  using assms by (simp add: generation_part_000_def Let_def)

text \<open>
  Claim C4, as amended. In a run that starts and receives its rows, with fewer valid items
  than items: when no item at all is valid, the run fails before the warning is made and
  the list of warnings is empty, in both copies of the handler. Otherwise the handler of
  \<open>src/src/App.tsx\<close> warns \<open>0 items were skipped due to validation errors\<close>, its count
  being the difference of \<open>cslItems.length\<close> with itself, and the handler of
  \<open>src/unnamed/part_000\<close> warns with the number of items less the number of valid items.
\<close>

theorem skipped_warning_of_each_handler:
  assumes "gsheetUrl inp \<noteq> [] \<or> csvFile inp" and "librariesLoaded inp"
    and "awaited_data inp = Inr (jsonData, cslStyle, enLocale)"
  shows "(length (fst (validateCslItems (build_items jsonData))) < length (build_items jsonData) \<longrightarrow>
          map_option warnings (handleGeneration inp generateCitations previous) =
            Some (if fst (validateCslItems (build_items jsonData)) = [] then []
                  else [str ''0 items were skipped due to validation errors''])) \<and>
         (length (fst (validateCslItems (build_items_part_000 jsonData))) <
            length (build_items_part_000 jsonData) \<longrightarrow>
          map_option warnings (handleGeneration_part_000 inp generateCitations previous) =
            Some (if fst (validateCslItems (build_items_part_000 jsonData)) = [] then []
                  else [string_of_nat (length (build_items_part_000 jsonData) -
                                       length (fst (validateCslItems (build_items_part_000 jsonData)))) @
                        str '' items were skipped due to validation errors'']))"
proof (intro conjI impI)
  assume less: "length (fst (validateCslItems (build_items jsonData))) < length (build_items jsonData)"
  show "map_option warnings (handleGeneration inp generateCitations previous) =
            Some (if fst (validateCslItems (build_items jsonData)) = [] then []
                  else [str ''0 items were skipped due to validation errors''])"
  proof (cases "fst (validateCslItems (build_items jsonData)) = []")
    case True
    with assms(3) show ?thesis
      by (simp add: handleGeneration_runs [OF assms(1,2)] generation_def)
  next
    case False
    with less show ?thesis
      by (simp add: handleGeneration_runs [OF assms(1,2)] assms(3) generation_completes [OF False]
          string_of_nat.simps str_def)
  qed
next
  assume less: "length (fst (validateCslItems (build_items_part_000 jsonData))) <
            length (build_items_part_000 jsonData)"
  have run: "handleGeneration_part_000 inp generateCitations previous =
      (case generation_part_000 (Inr (jsonData, cslStyle, enLocale)) generateCitations of
         Inr r \<Rightarrow> Some r
       | Inl e \<Rightarrow>
           Some \<lparr>success = False, citations = [],
                 errors = [case e of Error message \<Rightarrow> message
                           | NotAnError \<Rightarrow> str ''Unknown error occurred''],
                 warnings = [], csvData = []\<rparr>)"
    using assms(1,3) by (auto simp add: handleGeneration_part_000_def Let_def split: sum.splits)
  show "map_option warnings (handleGeneration_part_000 inp generateCitations previous) =
            Some (if fst (validateCslItems (build_items_part_000 jsonData)) = [] then []
                  else [string_of_nat (length (build_items_part_000 jsonData) -
                                       length (fst (validateCslItems (build_items_part_000 jsonData)))) @
                        str '' items were skipped due to validation errors''])"
  proof (cases "fst (validateCslItems (build_items_part_000 jsonData)) = []")
    case True
    then show ?thesis by (simp add: run generation_part_000_def)
  next
    case False
    from generation_part_000_completes [OF False, of cslStyle enLocale generateCitations] less False
    show ?thesis by (auto simp add: run split: sum.splits)
  qed
qed

theorem skipped_warning_of_each_handler_witness:
  "length (fst (validateCslItems (build_items [row_blank, row_titled, row_blank]))) = 1 \<and>
   length (build_items [row_blank, row_titled, row_blank]) = 3 \<and>
   map_option warnings
     (handleGeneration (run_on [row_blank, row_titled, row_blank]) (render_fixed [str ''C'']) None) =
     Some [str ''0 items were skipped due to validation errors''] \<and>
   length (fst (validateCslItems (build_items_part_000 [row_blank, row_titled, row_blank]))) = 1 \<and>
   length (build_items_part_000 [row_blank, row_titled, row_blank]) = 3 \<and>
   map_option warnings
     (handleGeneration_part_000 (run_on [row_blank, row_titled, row_blank]) (render_fixed [str ''C''])
        None) =
     Some [str ''2 items were skipped due to validation errors'']"
proof -
  have v: "length (fst (validateCslItems (build_items [row_blank, row_titled, row_blank]))) = 1"
    by (simp add: eval_rows)
  have n: "length (build_items [row_blank, row_titled, row_blank]) = 3"
    by (simp add: build_items_length)
  have v0: "length (fst (validateCslItems (build_items_part_000 [row_blank, row_titled, row_blank]))) = 1"
    by (simp add: build_items_part_000_def createCslItem_part_000_rows valid_items rejected_def
        blank_item_def enumerate_eq_zip upt_rec str_def)
  have n0: "length (build_items_part_000 [row_blank, row_titled, row_blank]) = 3"
    by (simp add: build_items_part_000_def)
  have two: "string_of_nat 2 = str ''2''" by (simp add: string_of_nat.simps str_def)
  note both = skipped_warning_of_each_handler [of "run_on [row_blank, row_titled, row_blank]"
        "[row_blank, row_titled, row_blank]" "[]" "[]" "render_fixed [str ''C'']" None]
  have a: "map_option warnings
     (handleGeneration (run_on [row_blank, row_titled, row_blank]) (render_fixed [str ''C'']) None) =
     Some [str ''0 items were skipped due to validation errors'']"
    using v n both by (auto simp add: run_on_def)
  have b: "map_option warnings
     (handleGeneration_part_000 (run_on [row_blank, row_titled, row_blank]) (render_fixed [str ''C''])
        None) =
     Some [str ''2 items were skipped due to validation errors'']"
    using v0 n0 both two by (auto simp add: run_on_def str_def)
  from v n a v0 n0 b show ?thesis by simp
qed

text \<open>
  The claim as it was stated fails in two ways. With two rows that are both rejected there
  are fewer valid items than items, and the handler of \<open>src/src/App.tsx\<close> leaves no warning
  at all. With a rejected row and a valid one, the handler of \<open>src/unnamed/part_000\<close> warns
  with the count 1, not 0.
\<close>

theorem skipped_warning_counterexample:
  "length (fst (validateCslItems (build_items [row_blank, row_blank]))) <
     length (build_items [row_blank, row_blank]) \<and>
   map_option warnings
     (handleGeneration (run_on [row_blank, row_blank]) (render_fixed [str ''C'']) None) = Some [] \<and>
   length (fst (validateCslItems (build_items_part_000 [row_blank, row_titled]))) <
     length (build_items_part_000 [row_blank, row_titled]) \<and>
   map_option warnings
     (handleGeneration_part_000 (run_on [row_blank, row_titled]) (render_fixed [str ''C'']) None) =
     Some [str ''1 items were skipped due to validation errors'']"
proof -
  have v: "fst (validateCslItems (build_items [row_blank, row_blank])) = []"
    by (simp add: eval_rows)
  have n: "length (build_items [row_blank, row_blank]) = 2"
    by (simp add: build_items_length)
  have a: "map_option warnings
     (handleGeneration (run_on [row_blank, row_blank]) (render_fixed [str ''C'']) None) = Some []"
    using v by (simp add: handleGeneration_def run_on_def generation_def)
  have v0: "length (fst (validateCslItems (build_items_part_000 [row_blank, row_titled]))) = 1"
    by (simp add: build_items_part_000_def createCslItem_part_000_rows valid_items rejected_def
        blank_item_def enumerate_eq_zip upt_rec str_def)
  have n0: "length (build_items_part_000 [row_blank, row_titled]) = 2"
    by (simp add: build_items_part_000_def)
  have b: "map_option warnings
     (handleGeneration_part_000 (run_on [row_blank, row_titled]) (render_fixed [str ''C'']) None) =
     Some [str ''1 items were skipped due to validation errors'']"
    by (simp add: part_000_by_row_position)
  from v n a v0 n0 b show ?thesis by simp
qed

end
